theory Spec2Isabelle
  imports Complex_Main
begin

section \<open>JavaScript values\<close>

text \<open>
  The dashboard's normalisation code (\<^verbatim>\<open>src/app/page.tsx\<close>) works on JavaScript
  numbers and strings. A number is modelled as an exact real or one of the three
  non-finite values. In the row parser and the normaliser the arithmetic on finite
  numbers is exact (the rounding of a finite result to the nearest double is not
  modelled there), and a parsed literal beyond the double range becomes an infinity, as
  the runtime's conversion does. The label formatter rounds the result of every
  operation to the nearest double. A string is a list of code units below 256.
\<close>

datatype jsnum = Fin real | PosInf | NegInf | NaN

datatype jsval = JNum jsnum | JStr string | JBool bool | JNull | JUndefined | JObject

fun isFinite :: "jsnum \<Rightarrow> bool" where
  "isFinite (Fin r) = True"
| "isFinite PosInf = False"
| "isFinite NegInf = False"
| "isFinite NaN = False"

fun Math_floor :: "jsnum \<Rightarrow> jsnum" where
  "Math_floor (Fin r) = Fin (of_int \<lfloor>r\<rfloor>)"
| "Math_floor PosInf = PosInf"
| "Math_floor NegInf = NegInf"
| "Math_floor NaN = NaN"

definition dbl_overflow :: real where
  \<comment> \<open>the least magnitude that rounds to an infinity\<close>
  "dbl_overflow = 2 ^ 1024 - 2 ^ 970"

definition toDouble :: "real \<Rightarrow> jsnum" where
  "toDouble r = (if dbl_overflow \<le> r then PosInf
                 else if r \<le> - dbl_overflow then NegInf else Fin r)"

subsection \<open>Strings: trim, toLowerCase\<close>

definition isWhiteSpace :: "char \<Rightarrow> bool" where
  \<comment> \<open>TAB, LF, VT, FF, CR, SP, NBSP: the white space and line terminators below 256\<close>
  "isWhiteSpace c = ((of_char c :: nat) \<in> set [9, 10, 11, 12, 13, 32, 160])"

definition trim :: "string \<Rightarrow> string" where
  "trim s = rev (dropWhile isWhiteSpace (rev (dropWhile isWhiteSpace s)))"

definition lowerChar :: "char \<Rightarrow> char" where
  "lowerChar c =
     (let n = (of_char c :: nat)
      in if (65 \<le> n \<and> n \<le> 90) \<or> (192 \<le> n \<and> n \<le> 222 \<and> n \<noteq> 215)
         then char_of (n + 32) else c)"

definition toLowerCase :: "string \<Rightarrow> string" where
  "toLowerCase s = map lowerChar s"

subsection \<open>Numeric literals: parseInt(s, 10) and Number(s)\<close>

definition isDigit :: "char \<Rightarrow> bool" where
  "isDigit c = (48 \<le> (of_char c :: nat) \<and> (of_char c :: nat) \<le> 57)"

definition digitOf :: "char \<Rightarrow> nat" where
  \<comment> \<open>the value of a digit of any radix up to 16\<close>
  "digitOf c =
     (let n = (of_char c :: nat)
      in if 48 \<le> n \<and> n \<le> 57 then n - 48
         else if 97 \<le> n \<and> n \<le> 102 then n - 87
         else if 65 \<le> n \<and> n \<le> 70 then n - 55 else 0)"

definition isRadixDigit :: "nat \<Rightarrow> char \<Rightarrow> bool" where
  "isRadixDigit b c =
     (let n = (of_char c :: nat)
      in ((48 \<le> n \<and> n \<le> 57) \<or> (97 \<le> n \<and> n \<le> 102) \<or> (65 \<le> n \<and> n \<le> 70))
         \<and> digitOf c < b)"

definition digitsValue :: "nat \<Rightarrow> string \<Rightarrow> nat" where
  "digitsValue b ds = foldl (\<lambda>a c. a * b + digitOf c) 0 ds"

definition stripSign :: "string \<Rightarrow> bool \<times> string" where
  \<comment> \<open>an optional leading + or -; the flag says the sign was -\<close>
  "stripSign s =
     (case s of
        [] \<Rightarrow> (False, [])
      | c # t \<Rightarrow> if c = CHR ''-'' then (True, t)
                 else if c = CHR ''+'' then (False, t) else (False, s))"

definition parseInt10 :: "string \<Rightarrow> jsnum" where
  \<comment> \<open>\<^verbatim>\<open>parseInt(s, 10)\<close>: leading white space, a sign, the longest run of digits\<close>
  "parseInt10 s =
     (let (neg, u) = stripSign (dropWhile isWhiteSpace s);
          z = takeWhile isDigit u
      in if z = [] then NaN
         else toDouble (if neg then - real (digitsValue 10 z) else real (digitsValue 10 z)))"

definition pow10 :: "int \<Rightarrow> real" where
  "pow10 e = (if 0 \<le> e then 10 ^ nat e else 1 / 10 ^ nat (- e))"

definition parseExponent :: "string \<Rightarrow> int option" where
  \<comment> \<open>an optional exponent part \<^verbatim>\<open>e\<close>/\<^verbatim>\<open>E\<close> with a signed integer, up to the end\<close>
  "parseExponent r =
     (case r of
        [] \<Rightarrow> Some 0
      | c # t \<Rightarrow>
          if c = CHR ''e'' \<or> c = CHR ''E'' then
            (let (neg, ds) = stripSign t
             in if ds \<noteq> [] \<and> list_all isDigit ds
                then Some (if neg then - int (digitsValue 10 ds) else int (digitsValue 10 ds))
                else None)
          else None)"

definition strUnsignedDecimal :: "string \<Rightarrow> real option" where
  \<comment> \<open>digits, a fraction and an exponent: \<^verbatim>\<open>12\<close>, \<^verbatim>\<open>12.\<close>, \<^verbatim>\<open>12.5\<close>, \<^verbatim>\<open>.5\<close>, \<^verbatim>\<open>1e3\<close>\<close>
  "strUnsignedDecimal s =
     (let ip = takeWhile isDigit s; r1 = dropWhile isDigit s;
          (fp, r2) = (case r1 of
                        [] \<Rightarrow> ([], r1)
                      | c # t \<Rightarrow> if c = CHR ''.''
                                 then (takeWhile isDigit t, dropWhile isDigit t)
                                 else ([], r1))
      in if ip = [] \<and> fp = [] then None
         else (case parseExponent r2 of
                 None \<Rightarrow> None
               | Some e \<Rightarrow>
                   Some (real (digitsValue 10 (ip @ fp)) * pow10 (e - int (length fp)))))"

definition strDecimalLiteral :: "string \<Rightarrow> jsnum" where
  "strDecimalLiteral s =
     (let (neg, u) = stripSign s
      in if u = ''Infinity'' then (if neg then NegInf else PosInf)
         else (case strUnsignedDecimal u of
                 None \<Rightarrow> NaN
               | Some r \<Rightarrow> toDouble (if neg then - r else r)))"

definition nonDecimalLiteral :: "string \<Rightarrow> nat option" where
  \<comment> \<open>\<^verbatim>\<open>0x\<close>, \<^verbatim>\<open>0o\<close> and \<^verbatim>\<open>0b\<close> integers, unsigned\<close>
  "nonDecimalLiteral s =
     (case s of
        c0 # c1 # ds \<Rightarrow>
          if c0 = CHR ''0'' \<and> ds \<noteq> [] then
            (if (c1 = CHR ''x'' \<or> c1 = CHR ''X'') \<and> list_all (isRadixDigit 16) ds
               then Some (digitsValue 16 ds)
             else if (c1 = CHR ''o'' \<or> c1 = CHR ''O'') \<and> list_all (isRadixDigit 8) ds
               then Some (digitsValue 8 ds)
             else if (c1 = CHR ''b'' \<or> c1 = CHR ''B'') \<and> list_all (isRadixDigit 2) ds
               then Some (digitsValue 2 ds)
             else None)
          else None
      | _ \<Rightarrow> None)"

definition Number_of_string :: "string \<Rightarrow> jsnum" where
  \<comment> \<open>\<^verbatim>\<open>Number(s)\<close> on a string\<close>
  "Number_of_string s =
     (let t = trim s
      in if t = [] then Fin 0
         else (case nonDecimalLiteral t of
                 Some n \<Rightarrow> toDouble (real n)
               | None \<Rightarrow> strDecimalLiteral t))"

section \<open>The row parser\<close>

definition parseDay :: "jsval \<Rightarrow> jsnum" where
  "parseDay v =
     (case v of
        JNum n \<Rightarrow> Math_floor n
      | JStr s \<Rightarrow> (let n = parseInt10 s in if isFinite n then n else Fin 0)
      | _ \<Rightarrow> Fin 0)"

definition toNumber :: "jsval \<Rightarrow> jsnum" where
  "toNumber v =
     (case v of
        JNum n \<Rightarrow> if isFinite n then n else Fin 0
      | JStr str \<Rightarrow>
          (let s = toLowerCase (trim str)
           in if s = [] \<or> s = ''nan'' \<or> s = ''null'' \<or> s = ''undefined'' then Fin 0
              else (let n = Number_of_string s in if isFinite n then n else Fin 0))
      | _ \<Rightarrow> Fin 0)"

section \<open>The normaliser\<close>

text \<open>
  A row of the API. Every field is declared a string; the code reads each one through
  \<^verbatim>\<open>??\<close>, so a field may also be missing (null or undefined): \<open>None\<close>.
\<close>

record ApiRow =
  base_month_day :: "string option"
  current_month_total_amount_released :: "string option"
  record_month_total_amount_released :: "string option"
  last_year_current_month_total_amount_released :: "string option"

datatype ApiKey = K_base_month_day | K_current_month | K_record_month | K_last_year

fun field :: "ApiRow \<Rightarrow> ApiKey \<Rightarrow> string option" where
  "field r K_base_month_day = base_month_day r"
| "field r K_current_month = current_month_total_amount_released r"
| "field r K_record_month = record_month_total_amount_released r"
| "field r K_last_year = last_year_current_month_total_amount_released r"

text \<open>
  A point of the chart and the metadata. The fields \<^verbatim>\<open>x\<close>, \<^verbatim>\<open>current\<close>, \<^verbatim>\<open>lastYear\<close> and
  \<^verbatim>\<open>record\<close> of a point carry the prefix \<open>row_\<close> here; \<open>None\<close> is \<^verbatim>\<open>null\<close>.
\<close>

record ChartRow =
  row_x :: int
  row_current :: "real option"
  row_lastYear :: real
  row_record :: real

record TransformMeta =
  currentMonthLen :: int
  recordMonthLen :: int
  todayDay :: int
  currentProgressX :: int

record TransformResult =
  data :: "ChartRow list"
  meta :: TransformMeta

text \<open>
  In the normaliser \<open>parseDay\<close> is applied to fields of rows only, where it returns a
  finite whole number (lemma \<open>parseDay_rowDay\<close>), and \<open>toNumber\<close> returns a finite
  number on every input (lemma \<open>toNumber_realOf\<close>). The normaliser therefore computes with
  integers and reals, through \<open>intOf\<close> and \<open>realOf\<close>.
\<close>

fun jsval_of :: "string option \<Rightarrow> jsval" where
  "jsval_of None = JUndefined"
| "jsval_of (Some s) = JStr s"

fun intOf :: "jsnum \<Rightarrow> int" where
  \<comment> \<open>a finite number as an integer; the day of a row is always finite and whole\<close>
  "intOf (Fin r) = \<lfloor>r\<rfloor>"
| "intOf PosInf = 0"
| "intOf NegInf = 0"
| "intOf NaN = 0"

fun realOf :: "jsnum \<Rightarrow> real" where
  \<comment> \<open>the value of a finite number; \<open>toNumber\<close> returns no other\<close>
  "realOf (Fin r) = r"
| "realOf PosInf = 0"
| "realOf NegInf = 0"
| "realOf NaN = 0"

definition rowDay :: "ApiRow \<Rightarrow> int" where
  \<comment> \<open>\<^verbatim>\<open>parseDay(r.base_month_day)\<close>\<close>
  "rowDay r = intOf (parseDay (jsval_of (base_month_day r)))"

fun orEmpty :: "string option \<Rightarrow> string" where
  \<comment> \<open>\<^verbatim>\<open>v ?? ''\<close>\<close>
  "orEmpty None = []"
| "orEmpty (Some s) = s"

definition rawOf :: "string option \<Rightarrow> string" where
  \<comment> \<open>\<^verbatim>\<open>(v ?? '').toString().trim().toLowerCase()\<close>\<close>
  "rawOf v = toLowerCase (trim (orEmpty v))"

definition cumulative :: "real list \<Rightarrow> real list" where
  "cumulative daily =
     snd (fold (\<lambda>v (acc, out). (acc + v, out @ [acc + v])) daily (0, []))"

definition at_or :: "real list \<Rightarrow> int \<Rightarrow> real \<Rightarrow> real" where
  \<comment> \<open>\<^verbatim>\<open>cum[i] ?? d\<close>: an index outside the array reads undefined\<close>
  "at_or cum i d = (if 0 \<le> i \<and> i < int (length cum) then cum ! nat i else d)"

definition cumAtProgress :: "real list \<Rightarrow> int \<Rightarrow> real \<Rightarrow> real" where
  "cumAtProgress cum L p =
     (if L \<le> 0 then 0
      else if p \<le> 0 then 0
      else if 1 \<le> p then at_or cum (L - 1) 0
      else
        (let dayFloat = p * real_of_int L;
             loDay = \<lfloor>dayFloat\<rfloor>;
             hiDay = min (loDay + 1) L;
             loIndex = max (loDay - 1) (- 1);
             hiIndex = hiDay - 1;
             loValue = (if 0 \<le> loIndex then at_or cum loIndex 0 else 0);
             hiValue = at_or cum hiIndex loValue;
             loPos = loDay;
             hiPos = hiDay
         in if hiPos = loPos then hiValue
            else (let t = (dayFloat - real_of_int loPos) / real_of_int (hiPos - loPos)
                  in loValue + (hiValue - loValue) * t)))"

definition sortRows :: "ApiRow list \<Rightarrow> ApiRow list" where
  \<comment> \<open>the stable sort of a copy of the rows by parsed day\<close>
  "sortRows rows = sort_key rowDay rows"

definition byDay :: "ApiRow list \<Rightarrow> (int \<rightharpoonup> ApiRow)" where
  "byDay sortedRows =
     fold (\<lambda>r m. let day = rowDay r in if 1 \<le> day \<and> day \<le> 31 then m(day \<mapsto> r) else m)
       sortedRows Map.empty"

definition todayLoop :: "ApiRow list \<Rightarrow> int" where
  \<comment> \<open>the loop over the sorted rows that finds the last day with a current-month value\<close>
  "todayLoop sortedRows =
     fold (\<lambda>r t. let d = rowDay r
                 in if d \<le> 0 then t
                    else if rawOf (current_month_total_amount_released r) \<noteq> ''nan''
                    then max t d else t)
       sortedRows 0"

definition maxDayOr :: "ApiRow list \<Rightarrow> int \<Rightarrow> int" where
  \<comment> \<open>\<^verbatim>\<open>Math.max(...sorted.map(parseDay).filter(d => d > 0), seed)\<close>\<close>
  "maxDayOr sortedRows seed = fold max (filter (\<lambda>d. 0 < d) (map rowDay sortedRows)) seed"

definition inferTodayDay :: "ApiRow list \<Rightarrow> int" where
  "inferTodayDay sortedRows =
     (let t = todayLoop sortedRows in if t = 0 then maxDayOr sortedRows 0 else t)"

definition isPresent :: "string \<Rightarrow> bool" where
  \<comment> \<open>\<^verbatim>\<open>raw && raw !== 'nan'\<close>\<close>
  "isPresent raw = (raw \<noteq> [] \<and> raw \<noteq> ''nan'')"

definition inferLoop :: "ApiKey list \<Rightarrow> ApiRow list \<Rightarrow> int" where
  \<comment> \<open>the candidate length before the fallback: the inner loop stops at the first key
     whose value is present\<close>
  "inferLoop keys sortedRows =
     fold (\<lambda>r L. let d = rowDay r
                 in if d \<le> 0 then L
                    else if list_ex (\<lambda>k. isPresent (rawOf (field r k))) keys
                    then max L d else L)
       sortedRows 0"

definition inferLen :: "ApiKey list \<Rightarrow> ApiRow list \<Rightarrow> int" where
  "inferLen keys sortedRows =
     (let L = inferLoop keys sortedRows;
          L' = (if L = 0 then maxDayOr sortedRows 31 else L)
      in min (max L' 28) 31)"

definition dailyAmount :: "(int \<rightharpoonup> ApiRow) \<Rightarrow> ApiKey \<Rightarrow> int \<Rightarrow> real" where
  \<comment> \<open>the body of the loop of \<^verbatim>\<open>buildDaily\<close>: the parsed amount of day \<open>d\<close>\<close>
  "dailyAmount m key d =
     (let raw = (case m d of
                   None \<Rightarrow> ''0''
                 | Some r \<Rightarrow> (case field r key of None \<Rightarrow> ''0'' | Some s \<Rightarrow> s))
      in realOf (toNumber (JStr raw)))"

definition buildDaily :: "(int \<rightharpoonup> ApiRow) \<Rightarrow> ApiKey \<Rightarrow> int \<Rightarrow> real list" where
  "buildDaily m key L = map (dailyAmount m key) [1..L]"

definition Math_round :: "real \<Rightarrow> int" where
  \<comment> \<open>to the nearest integer, a half upwards\<close>
  "Math_round r = \<lfloor>r + 1 / 2\<rfloor>"

definition emptyResult :: TransformResult where
  "emptyResult =
     \<lparr> data = [\<lparr> row_x = 0, row_current = Some 0, row_lastYear = 0, row_record = 0 \<rparr>],
       meta = \<lparr> currentMonthLen = 31, recordMonthLen = 31, todayDay = 0,
                currentProgressX = 0 \<rparr> \<rparr>"

definition chartRowAt ::
  "real list \<Rightarrow> real list \<Rightarrow> real list \<Rightarrow> int \<Rightarrow> int \<Rightarrow> int \<Rightarrow> int \<Rightarrow> ChartRow" where
  \<comment> \<open>the body of the loop over x = 0..100\<close>
  "chartRowAt currentCum lastYearCum recordCum curLen recLen progressX x =
     (let p = real_of_int x / 100;
          currentVal = cumAtProgress currentCum curLen p;
          lastYearVal = cumAtProgress lastYearCum curLen p;
          recordVal = cumAtProgress recordCum recLen p
      in \<lparr> row_x = x,
           row_current = (if progressX < x then None else Some currentVal),
           row_lastYear = lastYearVal,
           row_record = recordVal \<rparr>)"

definition transformApiToNormalizedChart :: "ApiRow list option \<Rightarrow> TransformResult" where
  \<comment> \<open>\<open>None\<close> is an absent argument (\<^verbatim>\<open>!rows?.length\<close>)\<close>
  "transformApiToNormalizedChart rows =
     (case rows of
        None \<Rightarrow> emptyResult
      | Some rs \<Rightarrow>
          if rs = [] then emptyResult
          else
            (let sortedRows = sortRows rs;
                 m = byDay sortedRows;
                 today0 = inferTodayDay sortedRows;
                 curLen = inferLen [K_current_month, K_last_year] sortedRows;
                 recLen = inferLen [K_record_month] sortedRows;
                 today = min today0 curLen;
                 currentCum = cumulative (buildDaily m K_current_month curLen);
                 lastYearCum = cumulative (buildDaily m K_last_year curLen);
                 recordCum = cumulative (buildDaily m K_record_month recLen);
                 currentProgress =
                   (if 0 < curLen then real_of_int today / real_of_int curLen else 0);
                 progressX = Math_round (currentProgress * 100)
             in \<lparr> data = map (chartRowAt currentCum lastYearCum recordCum curLen recLen
                                 progressX) [0..100],
                  meta = \<lparr> currentMonthLen = curLen, recordMonthLen = recLen,
                           todayDay = today, currentProgressX = progressX \<rparr> \<rparr>))"

subsection \<open>The parts of the result, by name\<close>

text \<open>
  The local constants of \<open>transformApiToNormalizedChart\<close> as functions of the rows, so
  that statements about the result can name them.
\<close>

definition curLenOf :: "ApiRow list \<Rightarrow> int" where
  "curLenOf rows = inferLen [K_current_month, K_last_year] (sortRows rows)"

definition recLenOf :: "ApiRow list \<Rightarrow> int" where
  "recLenOf rows = inferLen [K_record_month] (sortRows rows)"

definition todayOf :: "ApiRow list \<Rightarrow> int" where
  "todayOf rows = min (inferTodayDay (sortRows rows)) (curLenOf rows)"

definition progressOf :: "ApiRow list \<Rightarrow> int" where
  "progressOf rows =
     Math_round ((if 0 < curLenOf rows then real_of_int (todayOf rows) / real_of_int (curLenOf rows)
                  else 0) * 100)"

definition cumOf :: "ApiRow list \<Rightarrow> ApiKey \<Rightarrow> int \<Rightarrow> real list" where
  "cumOf rows key L = cumulative (buildDaily (byDay (sortRows rows)) key L)"

section \<open>The summary labels\<close>

text \<open>
  \<open>formatBubble\<close> writes a value in millions. Its argument is a finite number, and the
  result of each of its divisions and multiplications is rounded to the nearest double
  (\<open>fl\<close>), as the runtime does: a label can depend on that rounding. The runtime writes a
  number of magnitude \<open>10\<^sup>2\<^sup>1\<close> or more in exponent notation, with the digits of the
  nearest double: that string is the parameter \<open>expNotation\<close> of the model.
\<close>

subsection \<open>Rounding to the nearest double\<close>

text \<open>
  A finite double is a whole multiple of \<open>2\<^sup>e\<^sup>-\<^sup>5\<^sup>2\<close>, where \<open>2\<^sup>e\<close> is the power of two at or
  below its magnitude and \<open>e\<close> is at least -1022 (the subnormal numbers share the
  exponent -1022). \<open>fl x\<close> is the multiple nearest to \<open>x\<close>, the even one of two equally
  near. A result beyond the double range would be an infinity; none arises in
  \<open>formatBubble\<close> on a finite double, where the quotient by 1000000 is smaller than the
  argument and the product by 10 is taken of a number below 10 only.
\<close>

function flog2 :: "real \<Rightarrow> int" where
  \<comment> \<open>the whole part of the binary logarithm of a positive number\<close>
  "flog2 x = (if x \<le> 0 then 0
              else if 2 \<le> x then flog2 (x / 2) + 1
              else if x < 1 then flog2 (x * 2) - 1
              else 0)"
  by pat_completeness auto
termination
proof (relation "measure (\<lambda>x. nat \<bar>\<lfloor>log 2 x\<rfloor>\<bar>)")
  show "wf (measure (\<lambda>x. nat \<bar>\<lfloor>log 2 x\<rfloor>\<bar>))" by simp
next
  fix x :: real
  assume a: "\<not> x \<le> 0" "2 \<le> x"
  have "log 2 (x / 2) = log 2 x - 1" using a by (simp add: log_divide)
  then have f: "\<lfloor>log 2 (x / 2)\<rfloor> = \<lfloor>log 2 x\<rfloor> - 1" by simp
  have "1 \<le> log 2 x" using a by simp
  then have "1 \<le> \<lfloor>log 2 x\<rfloor>" by linarith
  with f show "(x / 2, x) \<in> measure (\<lambda>x. nat \<bar>\<lfloor>log 2 x\<rfloor>\<bar>)" by simp
next
  fix x :: real
  assume a: "\<not> x \<le> 0" "\<not> 2 \<le> x" "x < 1"
  have "log 2 (x * 2) = log 2 x + 1" using a by (simp add: log_mult)
  then have f: "\<lfloor>log 2 (x * 2)\<rfloor> = \<lfloor>log 2 x\<rfloor> + 1" by simp
  have "log 2 x < 0" using a by simp
  then have "\<lfloor>log 2 x\<rfloor> \<le> - 1" by linarith
  with f show "(x * 2, x) \<in> measure (\<lambda>x. nat \<bar>\<lfloor>log 2 x\<rfloor>\<bar>)" by simp
qed

declare flog2.simps [simp del]

definition pow2 :: "int \<Rightarrow> real" where
  \<comment> \<open>the power of two with a whole exponent of either sign\<close>
  "pow2 e = (if 0 \<le> e then 2 ^ nat e else 1 / 2 ^ nat (- e))"

definition expo :: "real \<Rightarrow> int" where
  \<comment> \<open>the exponent of the doubles around \<open>x\<close>, that of the subnormal numbers at least\<close>
  "expo x = max (flog2 \<bar>x\<bar>) (- 1022)"

definition roundEven :: "real \<Rightarrow> int" where
  \<comment> \<open>the nearest whole number, the even one of two equally near\<close>
  "roundEven r =
     (let f = \<lfloor>r\<rfloor>; d = r - real_of_int f
      in if d < 1 / 2 then f else if 1 / 2 < d then f + 1 else if even f then f else f + 1)"

definition fl :: "real \<Rightarrow> real" where
  \<comment> \<open>the double nearest to \<open>x\<close>\<close>
  "fl x = (if x = 0 then 0
           else (let q = pow2 (expo x - 52) in real_of_int (roundEven (x / q)) * q))"

subsection \<open>The formatter\<close>

definition digitChar :: "nat \<Rightarrow> char" where
  "digitChar d = char_of (48 + d)"

function showNat :: "nat \<Rightarrow> string" where
  "showNat n = (if n < 10 then [digitChar n] else showNat (n div 10) @ [digitChar (n mod 10)])"
  by pat_completeness auto
termination
  by (relation "measure id") auto

declare showNat.simps [simp del]

definition Number_toString :: "(real \<Rightarrow> string) \<Rightarrow> int \<Rightarrow> string" where
  \<comment> \<open>the string of a whole number: its decimal digits below \<open>10\<^sup>2\<^sup>1\<close>, exponent notation
     (the parameter) from there on\<close>
  "Number_toString expNotation n =
     (if 10 ^ 21 \<le> \<bar>n\<bar> then expNotation (real_of_int n)
      else if n < 0 then CHR ''-'' # showNat (nat (- n)) else showNat (nat n))"

definition toFixed :: "(real \<Rightarrow> string) \<Rightarrow> nat \<Rightarrow> real \<Rightarrow> string" where
  \<comment> \<open>\<^verbatim>\<open>x.toFixed(f)\<close>: the nearest multiple of \<open>10\<^sup>-\<^sup>f\<close> (the larger of two), with \<open>f\<close>
     digits after the point\<close>
  "toFixed expNotation f x =
     (if 10 ^ 21 \<le> \<bar>x\<bar> then expNotation x
      else
        (let n = nat \<lfloor>\<bar>x\<bar> * 10 ^ f + 1 / 2\<rfloor>;
             m = showNat n;
             m' = (if f = 0 then m
                   else (let z = (if length m \<le> f
                                  then replicate (f + 1 - length m) CHR ''0'' @ m else m);
                             k = length z
                         in take (k - f) z @ ''.'' @ drop (k - f) z))
         in if x < 0 then CHR ''-'' # m' else m'))"

definition fmod1 :: "real \<Rightarrow> real" where
  \<comment> \<open>\<^verbatim>\<open>x % 1\<close>: the remainder has the sign of \<open>x\<close>\<close>
  "fmod1 x = (if 0 \<le> x then x - real_of_int \<lfloor>x\<rfloor> else x - real_of_int \<lceil>x\<rceil>)"

definition formatBubble :: "(real \<Rightarrow> string) \<Rightarrow> real \<Rightarrow> string" where
  "formatBubble expNotation v =
     (let millions = fl (v / 1000000)
      in if millions < 10 then
           (let rounded = fl (real_of_int \<lceil>fl (millions * 10)\<rceil> / 10);
                text = (if fmod1 rounded = 0 then toFixed expNotation 0 rounded
                        else toFixed expNotation 1 rounded)
            in text @ ''M'')
         else Number_toString expNotation \<lceil>millions\<rceil> @ ''M'')"

section \<open>Notions for the statements\<close>

subsection \<open>The notions of the specification\<close>

text \<open>
  The day lists that the specification's description of today-inference and of
  length-inference speaks of, written from its words; the lemmas below relate the loops
  of the code to them.
\<close>

definition realDays :: "ApiRow list \<Rightarrow> int list" where
  \<comment> \<open>the day indices d > 0 whose current-month amount, trimmed and lower-cased, is not
     the sentinel \<^verbatim>\<open>nan\<close>\<close>
  "realDays rows =
     map rowDay
       (filter (\<lambda>r. 0 < rowDay r \<and> rawOf (current_month_total_amount_released r) \<noteq> ''nan'')
          rows)"

definition positiveDays :: "ApiRow list \<Rightarrow> int list" where
  "positiveDays rows = filter (\<lambda>d. 0 < d) (map rowDay rows)"

definition presentDays :: "ApiKey list \<Rightarrow> ApiRow list \<Rightarrow> int list" where
  \<comment> \<open>the day indices d > 0 of the rows with a present value in one of the fields\<close>
  "presentDays keys rows =
     map rowDay
       (filter (\<lambda>r. 0 < rowDay r \<and> list_ex (\<lambda>k. isPresent (rawOf (field r k))) keys) rows)"

definition allBlank :: "ApiKey list \<Rightarrow> ApiRow \<Rightarrow> bool" where
  \<comment> \<open>every one of the given fields trims to the empty string\<close>
  "allBlank keys r = list_all (\<lambda>k. trim (orEmpty (field r k)) = []) keys"

definition amountOf :: "ApiRow \<Rightarrow> ApiKey \<Rightarrow> real" where
  \<comment> \<open>the parsed amount of a field of a row: \<^verbatim>\<open>toNumber(r[key] ?? '0')\<close>\<close>
  "amountOf r key =
     realOf (toNumber (JStr (case field r key of None \<Rightarrow> ''0'' | Some s \<Rightarrow> s)))"

definition nonnegAmounts :: "ApiRow list \<Rightarrow> bool" where
  \<comment> \<open>no row has a negative parsed amount\<close>
  "nonnegAmounts rows =
     list_all (\<lambda>r. list_all (\<lambda>k. 0 \<le> amountOf r k)
                      [K_current_month, K_last_year, K_record_month]) rows"

definition amountCap :: real where
  \<comment> \<open>a cap on an amount that keeps the sum of 31 amounts inside the double range\<close>
  "amountCap = 2 ^ 1000"

definition cappedAmounts :: "ApiRow list \<Rightarrow> bool" where
  \<comment> \<open>no row has a parsed amount above the cap\<close>
  "cappedAmounts rows =
     list_all (\<lambda>r. list_all (\<lambda>k. amountOf r k \<le> amountCap)
                      [K_current_month, K_last_year, K_record_month]) rows"

definition psum :: "real list \<Rightarrow> nat \<Rightarrow> real" where
  \<comment> \<open>the sum of the first \<open>k\<close> daily amounts\<close>
  "psum xs k = sum_list (take k xs)"

definition interp :: "real list \<Rightarrow> real \<Rightarrow> real" where
  \<comment> \<open>the running total at a fractional day position, linear between whole days\<close>
  "interp xs y =
     psum xs (nat \<lfloor>y\<rfloor>)
     + (psum xs (Suc (nat \<lfloor>y\<rfloor>)) - psum xs (nat \<lfloor>y\<rfloor>)) * (y - real_of_int \<lfloor>y\<rfloor>)"

definition offWhole :: "real \<Rightarrow> real" where
  \<comment> \<open>the distance to the nearest whole number\<close>
  "offWhole y = \<bar>y - real_of_int (round y)\<bar>"

definition clearOf :: "real \<Rightarrow> bool" where
  \<comment> \<open>a whole number below \<open>2\<^sup>5\<^sup>3\<close>, or a number of magnitude \<open>2\<^sup>-\<^sup>1\<^sup>0\<^sup>0\<^sup>0\<close> or more that is
     farther than \<open>\<bar>y\<bar> / 2\<^sup>5\<^sup>1\<close> from every whole number: the rounding errors of the
     quotient and the product of \<open>formatBubble\<close> do not reach a whole number\<close>
  "clearOf y \<longleftrightarrow> offWhole y = 0 \<and> \<bar>y\<bar> < 2 ^ 53
     \<or> 1 / 2 ^ 1000 \<le> \<bar>y\<bar> \<and> \<bar>y\<bar> / 2 ^ 51 < offWhole y"

section \<open>Example inputs\<close>

definition mkRow :: "string \<Rightarrow> string \<Rightarrow> string \<Rightarrow> string \<Rightarrow> ApiRow" where
  \<comment> \<open>a row from its day, current-month, record-month and last-year fields\<close>
  "mkRow d c r l =
     \<lparr> base_month_day = Some d, current_month_total_amount_released = Some c,
       record_month_total_amount_released = Some r,
       last_year_current_month_total_amount_released = Some l \<rparr>"

definition rows_half :: "ApiRow list" where
  "rows_half = [mkRow ''14'' ''200'' ''60'' ''50'', mkRow ''7'' ''100'' ''40'' ''30'']"

definition rows_blank :: "ApiRow list" where
  "rows_blank = [mkRow ''5'' ''100'' ''1'' ''1'', mkRow ''30'' '''' ''1'' '' '']"

definition rows_sentinel :: "ApiRow list" where
  "rows_sentinel = [mkRow ''1'' ''nan'' ''nan'' ''nan'', mkRow ''15'' ''NaN'' '' nan '' ''nan'']"

definition rows_scenario :: "ApiRow list" where
  \<comment> \<open>days 1 to 28 with a current-month amount, day 29 with the sentinel\<close>
  "rows_scenario =
     [mkRow ''1'' ''100'' ''70'' ''50'',
      mkRow ''2'' ''100'' ''70'' ''50'',
      mkRow ''3'' ''100'' ''70'' ''50'',
      mkRow ''4'' ''100'' ''70'' ''50'',
      mkRow ''5'' ''100'' ''70'' ''50'',
      mkRow ''6'' ''100'' ''70'' ''50'',
      mkRow ''7'' ''100'' ''70'' ''50'',
      mkRow ''8'' ''100'' ''70'' ''50'',
      mkRow ''9'' ''100'' ''70'' ''50'',
      mkRow ''10'' ''100'' ''70'' ''50'',
      mkRow ''11'' ''100'' ''70'' ''50'',
      mkRow ''12'' ''100'' ''70'' ''50'',
      mkRow ''13'' ''100'' ''70'' ''50'',
      mkRow ''14'' ''100'' ''70'' ''50'',
      mkRow ''15'' ''100'' ''70'' ''50'',
      mkRow ''16'' ''100'' ''70'' ''50'',
      mkRow ''17'' ''100'' ''70'' ''50'',
      mkRow ''18'' ''100'' ''70'' ''50'',
      mkRow ''19'' ''100'' ''70'' ''50'',
      mkRow ''20'' ''100'' ''70'' ''50'',
      mkRow ''21'' ''100'' ''70'' ''50'',
      mkRow ''22'' ''100'' ''70'' ''50'',
      mkRow ''23'' ''100'' ''70'' ''50'',
      mkRow ''24'' ''100'' ''70'' ''50'',
      mkRow ''25'' ''100'' ''70'' ''50'',
      mkRow ''26'' ''100'' ''70'' ''50'',
      mkRow ''27'' ''100'' ''70'' ''50'',
      mkRow ''28'' ''100'' ''70'' ''50'',
      mkRow ''29'' ''nan'' ''70'' ''50'']"

definition rows_gap :: "ApiRow list" where
  "rows_gap = [mkRow ''10'' ''100'' ''5'' ''7'', mkRow ''31'' '''' ''5'' ''nan'']"

definition rows_refund :: "ApiRow list" where
  \<comment> \<open>an amount on day 1 and a larger negative amount on day 2\<close>
  "rows_refund = [mkRow ''1'' ''10'' ''10'' ''10'', mkRow ''2'' ''-30'' ''-30'' ''-30'']"

section \<open>Facts about the parser\<close>

lemma toDouble_small: "\<bar>r\<bar> < 2 ^ 64 \<Longrightarrow> toDouble r = Fin r"
proof -
  assume a: "\<bar>r\<bar> < 2 ^ 64"
  have "(2::real) ^ 64 \<le> 2 ^ 1024 - 2 ^ 970" by simp
  with a show ?thesis by (auto simp: toDouble_def dbl_overflow_def)
qed

lemma toNumber_finite: "isFinite (toNumber v)"
  by (cases v) (auto simp: toNumber_def Let_def)

lemma toNumber_realOf: "toNumber v = Fin (realOf (toNumber v))"
  using toNumber_finite [of v] by (cases "toNumber v") simp_all

lemma toDouble_whole: "toDouble (real_of_int k) = Fin r \<Longrightarrow> r = real_of_int \<lfloor>r\<rfloor>"
  by (auto simp: toDouble_def split: if_splits)

lemma parseInt10_whole: "parseInt10 s = Fin r \<Longrightarrow> r = real_of_int \<lfloor>r\<rfloor>"
proof -
  assume a: "parseInt10 s = Fin r"
  obtain neg u where su: "stripSign (dropWhile isWhiteSpace s) = (neg, u)"
    by (cases "stripSign (dropWhile isWhiteSpace s)")
  let ?n = "digitsValue 10 (takeWhile isDigit u)"
  from a su have "toDouble (if neg then - real ?n else real ?n) = Fin r"
    by (simp add: parseInt10_def Let_def split: if_splits)
  moreover have "(if neg then - real ?n else real ?n) = real_of_int (if neg then - int ?n else int ?n)"
    by simp
  ultimately have "toDouble (real_of_int (if neg then - int ?n else int ?n)) = Fin r"
    by (simp only:)
  then show ?thesis by (rule toDouble_whole)
qed

lemma parseDay_rowDay:
  "parseDay (jsval_of (base_month_day r)) = Fin (real_of_int (rowDay r))"
proof (cases "base_month_day r")
  case None
  then show ?thesis by (simp add: rowDay_def parseDay_def)
next
  case (Some s)
  show ?thesis
  proof (cases "parseInt10 s")
    case (Fin x)
    with parseInt10_whole [OF Fin] Some show ?thesis
      by (simp add: rowDay_def parseDay_def)
  qed (simp_all add: Some rowDay_def parseDay_def)
qed

lemma isWhiteSpace_lowerChar: "isWhiteSpace (lowerChar c) = isWhiteSpace c"
proof -
  have r: "of_char (char_of (n + 32 :: nat)) = n + 32" if "n \<le> 222" for n
    using that by simp
  show ?thesis
    by (auto simp: isWhiteSpace_def lowerChar_def Let_def r)
qed

lemma dropWhile_all: "list_all P xs \<Longrightarrow> dropWhile P (xs @ ys) = dropWhile P ys"
  by (induction xs) auto

lemma trim_pad:
  assumes "list_all isWhiteSpace l" "list_all isWhiteSpace r"
    and "w \<noteq> []" "\<not> isWhiteSpace (hd w)" "\<not> isWhiteSpace (last w)"
  shows "trim (l @ w @ r) = w"
proof -
  have 1: "dropWhile isWhiteSpace (l @ w @ r) = w @ r"
    using assms by (cases w) (simp_all add: dropWhile_all)
  have "list_all isWhiteSpace (rev r)" using assms(2) by (simp add: list_all_iff)
  then have 2: "dropWhile isWhiteSpace (rev r @ rev w) = dropWhile isWhiteSpace (rev w)"
    by (rule dropWhile_all)
  have 3: "dropWhile isWhiteSpace (rev w) = rev w"
    using assms(3,5) by (cases "rev w") (auto simp: last_rev [symmetric] simp del: last_rev)
  show ?thesis by (simp add: trim_def 1 2 3)
qed

lemma trim_pad_empty:
  assumes "list_all isWhiteSpace l" "list_all isWhiteSpace r"
  shows "trim (l @ r) = []"
proof -
  have "\<forall>c \<in> set (l @ r). isWhiteSpace c" using assms by (auto simp: list_all_iff)
  then have d: "dropWhile isWhiteSpace (l @ r) = []"
    unfolding dropWhile_eq_Nil_conv .
  show ?thesis unfolding trim_def d by simp
qed

lemma sentinel_ends:
  assumes "toLowerCase w \<in> {''nan'', ''null'', ''undefined''}"
  shows "w \<noteq> [] \<and> \<not> isWhiteSpace (hd w) \<and> \<not> isWhiteSpace (last w)"
proof -
  from assms have ne: "w \<noteq> []" by (auto simp: toLowerCase_def)
  have h: "lowerChar (hd w) = hd (toLowerCase w)"
    using ne by (simp add: toLowerCase_def hd_map)
  have l: "lowerChar (last w) = last (toLowerCase w)"
    using ne by (simp add: toLowerCase_def last_map)
  from assms h have "\<not> isWhiteSpace (lowerChar (hd w))"
    by (auto simp: isWhiteSpace_def)
  moreover from assms l have "\<not> isWhiteSpace (lowerChar (last w))"
    by (auto simp: isWhiteSpace_def)
  ultimately show ?thesis using ne by (simp add: isWhiteSpace_lowerChar)
qed

lemma toNumber_sentinel:
  assumes "toLowerCase (trim s) \<in> {[], ''nan'', ''null'', ''undefined''}"
  shows "toNumber (JStr s) = Fin 0"
  using assms by (auto simp: toNumber_def Let_def)

lemma toNumber_padded_sentinel:
  assumes "list_all isWhiteSpace l" "list_all isWhiteSpace r"
    and "toLowerCase w \<in> {[], ''nan'', ''null'', ''undefined''}"
  shows "toNumber (JStr (l @ w @ r)) = Fin 0"
proof (cases "w = []")
  case True
  then show ?thesis
    using trim_pad_empty [OF assms(1,2)] by (simp add: toNumber_def toLowerCase_def)
next
  case False
  with assms(3) have "toLowerCase w \<in> {''nan'', ''null'', ''undefined''}"
    by (auto simp: toLowerCase_def)
  from sentinel_ends [OF this] have "trim (l @ w @ r) = w"
    using trim_pad [OF assms(1,2)] by blast
  with assms(3) show ?thesis by (intro toNumber_sentinel) simp
qed

lemmas js_eval =
  trim_def toLowerCase_def isWhiteSpace_def lowerChar_def Number_of_string_def
  nonDecimalLiteral_def strDecimalLiteral_def stripSign_def strUnsignedDecimal_def
  isDigit_def isRadixDigit_def parseExponent_def digitsValue_def digitOf_def pow10_def
  toDouble_small parseInt10_def char_of_eq_iff

lemma overflow_le_pow10: "dbl_overflow \<le> 10 ^ 999"
proof -
  have "dbl_overflow \<le> (2::real) ^ 1024" by (simp only: dbl_overflow_def) simp
  also have "\<dots> \<le> 2 ^ (3 * 999)" by (rule power_increasing) simp_all
  also have "\<dots> = ((2::real) ^ 3) ^ 999" by (rule power_mult)
  also have "\<dots> \<le> 10 ^ 999" by (rule power_mono) simp_all
  finally show ?thesis .
qed

lemma Number_1e999: "Number_of_string ''1e999'' = PosInf"
proof -
  have e: "parseExponent ''e999'' = Some 999"
    by (simp add: parseExponent_def stripSign_def isDigit_def digitsValue_def digitOf_def)
  have u: "strUnsignedDecimal ''1e999'' = Some (1 * pow10 999)"
    unfolding strUnsignedDecimal_def by (simp add: isDigit_def digitsValue_def digitOf_def e)
  have p: "pow10 999 = 10 ^ 999" by (simp only: pow10_def) (simp del: power_numeral)
  have "toDouble (1 * pow10 999) = PosInf"
    unfolding p toDouble_def using overflow_le_pow10 by (simp del: power_numeral)
  then show ?thesis
    unfolding Number_of_string_def strDecimalLiteral_def
    by (simp add: trim_def isWhiteSpace_def nonDecimalLiteral_def isRadixDigit_def digitOf_def
        stripSign_def u del: power_numeral)
qed

section \<open>Facts about the normaliser\<close>

lemma inferLen_range: "28 \<le> inferLen keys s \<and> inferLen keys s \<le> 31"
  by (simp add: inferLen_def Let_def)

lemma length_buildDaily: "length (buildDaily m key L) = nat L"
  by (simp add: buildDaily_def)

lemma cumulative_fold:
  "fold (\<lambda>v (acc, out). (acc + v, out @ [acc + v])) xs (a, out) =
     (a + sum_list xs, out @ map (\<lambda>k. a + sum_list (take (Suc k) xs)) [0..<length xs])"
proof (induction xs arbitrary: a out)
  case Nil
  show ?case by simp
next
  case (Cons x xs)
  have "map (\<lambda>k. a + sum_list (take (Suc k) (x # xs))) [0..<length (x # xs)] =
        (a + x) # map (\<lambda>k. a + x + sum_list (take (Suc k) xs)) [0..<length xs]"
    by (simp add: upt_rec [of 0] map_Suc_upt [symmetric] add.assoc del: upt_Suc)
  with Cons.IH [of "a + x" "out @ [a + x]"] show ?case
    by (simp add: add.assoc)
qed

lemma cumulative_eq:
  "cumulative xs = map (\<lambda>k. sum_list (take (Suc k) xs)) [0..<length xs]"
  by (simp add: cumulative_def cumulative_fold)

lemma length_cumulative: "length (cumulative xs) = length xs"
  by (simp add: cumulative_eq)

lemma cumulative_nth: "k < length xs \<Longrightarrow> cumulative xs ! k = sum_list (take (Suc k) xs)"
  by (simp add: cumulative_eq)


lemma cumAtProgress_one:
  assumes "0 < L" "nat L = length xs"
  shows "cumAtProgress (cumulative xs) L 1 = sum_list xs"
proof -
  from assms have len: "int (length xs) = L" by linarith
  then have k: "nat (L - 1) < length xs" "Suc (nat (L - 1)) = length xs"
    using assms(1) by linarith+
  have "at_or (cumulative xs) (L - 1) 0 = cumulative xs ! nat (L - 1)"
    using assms(1) len by (simp add: at_or_def length_cumulative)
  also have "\<dots> = sum_list (take (Suc (nat (L - 1))) xs)"
    using k(1) by (rule cumulative_nth)
  also have "\<dots> = sum_list xs" by (simp only: k(2)) simp
  finally show ?thesis using assms(1) by (simp add: cumAtProgress_def)
qed

lemma fold_max_ge: "(a::int) \<le> fold max xs a"
proof (induction xs arbitrary: a)
  case Nil
  show ?case by simp
next
  case (Cons x xs)
  have "a \<le> max x a" by simp
  also have "\<dots> \<le> fold max xs (max x a)" by (rule Cons.IH)
  finally show ?case by simp
qed

lemma maxDayOr_ge: "seed \<le> maxDayOr s seed"
  unfolding maxDayOr_def by (rule fold_max_ge)





lemma chartRowAt_sel:
  "row_x (chartRowAt cc lc rc cl rl px x) = x"
  "row_current (chartRowAt cc lc rc cl rl px x) =
     (if px < x then None else Some (cumAtProgress cc cl (real_of_int x / 100)))"
  "row_lastYear (chartRowAt cc lc rc cl rl px x) = cumAtProgress lc cl (real_of_int x / 100)"
  "row_record (chartRowAt cc lc rc cl rl px x) = cumAtProgress rc rl (real_of_int x / 100)"
  by (simp_all add: chartRowAt_def Let_def)

lemma transform_meta:
  assumes "rows \<noteq> []"
  shows "meta (transformApiToNormalizedChart (Some rows)) =
     \<lparr> currentMonthLen = curLenOf rows, recordMonthLen = recLenOf rows,
       todayDay = todayOf rows, currentProgressX = progressOf rows \<rparr>"
  using assms
  by (simp add: transformApiToNormalizedChart_def Let_def curLenOf_def recLenOf_def todayOf_def
      progressOf_def del: upto_rec_numeral)

lemma transform_data:
  assumes "rows \<noteq> []"
  shows "data (transformApiToNormalizedChart (Some rows)) =
     map (chartRowAt (cumOf rows K_current_month (curLenOf rows))
            (cumOf rows K_last_year (curLenOf rows))
            (cumOf rows K_record_month (recLenOf rows))
            (curLenOf rows) (recLenOf rows) (progressOf rows)) [0..100]"
  using assms
  by (simp add: transformApiToNormalizedChart_def Let_def curLenOf_def recLenOf_def todayOf_def
      progressOf_def cumOf_def del: upto_rec_numeral)


lemma fold_cond_max:
  "fold (\<lambda>r t. if q r then max t (g r) else t) s (a::int) = fold max (map g (filter q s)) a"
  by (induction s arbitrary: a) (simp_all add: max.commute)

lemma fold_max_Max: "fold max xs (a::int) = Max (set (a # xs))"
  by (simp only: Max.set_eq_fold)

lemma todayLoop_eq: "todayLoop s = Max (set (0 # realDays s))"
proof -
  have "(\<lambda>r t. let d = rowDay r
                 in if d \<le> 0 then t
                    else if rawOf (current_month_total_amount_released r) \<noteq> ''nan''
                    then max t d else t) =
        (\<lambda>r (t::int). if 0 < rowDay r \<and> rawOf (current_month_total_amount_released r) \<noteq> ''nan''
                then max t (rowDay r) else t)"
    by (auto simp: fun_eq_iff Let_def)
  then show ?thesis
    unfolding todayLoop_def realDays_def by (simp only: fold_cond_max fold_max_Max)
qed

lemma inferLoop_eq: "inferLoop keys s = Max (set (0 # presentDays keys s))"
proof -
  have "(\<lambda>r L. let d = rowDay r
                 in if d \<le> 0 then L
                    else if list_ex (\<lambda>k. isPresent (rawOf (field r k))) keys
                    then max L d else L) =
        (\<lambda>r (L::int). if 0 < rowDay r \<and> list_ex (\<lambda>k. isPresent (rawOf (field r k))) keys
                then max L (rowDay r) else L)"
    by (auto simp: fun_eq_iff Let_def)
  then show ?thesis
    unfolding inferLoop_def presentDays_def by (simp only: fold_cond_max fold_max_Max)
qed

lemma maxDayOr_eq: "maxDayOr s a = Max (set (a # positiveDays s))"
  unfolding maxDayOr_def positiveDays_def by (rule fold_max_Max)

lemma set_sortRows: "set (sortRows rows) = set rows"
  by (simp add: sortRows_def)

lemma set_realDays_sort: "set (realDays (sortRows rows)) = set (realDays rows)"
  by (simp add: realDays_def set_sortRows)

lemma set_positiveDays_sort: "set (positiveDays (sortRows rows)) = set (positiveDays rows)"
  by (simp add: positiveDays_def set_sortRows)

lemma set_presentDays_sort: "set (presentDays keys (sortRows rows)) = set (presentDays keys rows)"
  by (simp add: presentDays_def set_sortRows)

lemma realDays_pos: "d \<in> set (realDays rows) \<Longrightarrow> 0 < d"
  by (auto simp: realDays_def)

lemma Max_insert0_pos:
  assumes "finite S" "S \<noteq> {}" "\<forall>d\<in>S. (0::int) < d"
  shows "Max (insert 0 S) = Max S" "0 < Max S"
proof -
  from assms have m: "Max S \<in> S" by simp
  with assms(3) show p: "0 < Max S" by blast
  from assms(1,2) have "Max (insert 0 S) = max 0 (Max S)" by (rule Max_insert)
  with p show "Max (insert 0 S) = Max S" by simp
qed

lemma inferTodayDay_eq:
  "inferTodayDay (sortRows rows) =
     (if realDays rows \<noteq> [] then Max (set (realDays rows))
      else Max (set (0 # positiveDays rows)))"
proof (cases "realDays rows = []")
  case True
  then have "set (realDays (sortRows rows)) = {}" by (simp add: set_realDays_sort)
  then have "todayLoop (sortRows rows) = 0" by (simp add: todayLoop_eq)
  then show ?thesis
    using True by (simp add: inferTodayDay_def maxDayOr_eq set_positiveDays_sort)
next
  case False
  then have ne: "set (realDays rows) \<noteq> {}" by simp
  have pos: "\<forall>d\<in>set (realDays rows). 0 < d" using realDays_pos by blast
  have "todayLoop (sortRows rows) = Max (insert 0 (set (realDays rows)))"
    by (simp add: todayLoop_eq set_realDays_sort)
  also have "\<dots> = Max (set (realDays rows))"
    using Max_insert0_pos(1) [OF _ ne pos] by simp
  finally have t: "todayLoop (sortRows rows) = Max (set (realDays rows))" .
  moreover have "0 < Max (set (realDays rows))"
    using Max_insert0_pos(2) [OF _ ne pos] by simp
  ultimately show ?thesis using False by (simp add: inferTodayDay_def)
qed

lemma inferLen_fallback: "inferLoop keys s = 0 \<Longrightarrow> inferLen keys s = 31"
  using maxDayOr_ge [of 31 s] by (simp add: inferLen_def Let_def)

lemma inferLen_candidate:
  "inferLoop keys s \<noteq> 0 \<Longrightarrow> inferLen keys s = min (max (inferLoop keys s) 28) 31"
  by (simp add: inferLen_def Let_def)

lemma Max_range_with:
  assumes "finite S" "{1..28} \<subseteq> S" "S \<subseteq> {1..29::int}"
  shows "Max S = (if 29 \<in> S then 29 else 28)"
proof (cases "29 \<in> S")
  case True
  then show ?thesis using assms by (auto intro!: Max_eqI)
next
  case False
  have "Max S = 28"
  proof (rule Max_eqI)
    show "finite S" by fact
    show "28 \<in> S" using assms(2) by auto
    fix y assume "y \<in> S"
    with assms(3) False have "y \<in> {1..29}" "y \<noteq> 29" by auto
    then show "y \<le> 28" by simp
  qed
  with False show ?thesis by simp
qed

lemma rawOf_literals:
  "rawOf (Some ''100'') = ''100''" "rawOf (Some ''nan'') = ''nan''"
  by (simp_all add: rawOf_def js_eval)

lemma toLowerCase_Nil_iff: "toLowerCase s = [] \<longleftrightarrow> s = []"
  by (simp add: toLowerCase_def)

lemma allBlank_not_present:
  "allBlank keys r \<Longrightarrow> \<not> list_ex (\<lambda>k. isPresent (rawOf (field r k))) keys"
  by (auto simp: allBlank_def list_all_iff list_ex_iff isPresent_def rawOf_def toLowerCase_def)

lemma presentDays_filter_blank:
  "presentDays keys (filter (\<lambda>r. \<not> allBlank keys r) rows) = presentDays keys rows"
proof -
  have "filter (\<lambda>r. 0 < rowDay r \<and> list_ex (\<lambda>k. isPresent (rawOf (field r k))) keys)
          (filter (\<lambda>r. \<not> allBlank keys r) rows) =
        filter (\<lambda>r. 0 < rowDay r \<and> list_ex (\<lambda>k. isPresent (rawOf (field r k))) keys) rows"
    unfolding filter_filter
    by (rule filter_cong) (use allBlank_not_present in auto)
  then show ?thesis by (simp add: presentDays_def)
qed

lemma inferLoop_snoc_blank:
  assumes "allBlank keys r"
  shows "inferLoop keys (xs @ [r]) = inferLoop keys xs"
  using allBlank_not_present [OF assms] by (simp add: inferLoop_def Let_def)

lemma byDay_fold_in_set:
  "fold (\<lambda>r m. let day = rowDay r in if 1 \<le> day \<and> day \<le> 31 then m(day \<mapsto> r) else m) s m0 d
     = Some r \<Longrightarrow> r \<in> set s \<or> m0 d = Some r"
proof (induction s arbitrary: m0)
  case Nil
  then show ?case by simp
next
  case (Cons a s)
  let ?m1 = "(let day = rowDay a in if 1 \<le> day \<and> day \<le> 31 then m0(day \<mapsto> a) else m0)"
  from Cons.prems have "fold (\<lambda>r m. let day = rowDay r in if 1 \<le> day \<and> day \<le> 31 then m(day \<mapsto> r) else m) s ?m1 d = Some r"
    by simp
  from Cons.IH [OF this] have "r \<in> set s \<or> ?m1 d = Some r" .
  then show ?case by (auto simp: Let_def split: if_splits)
qed

lemma byDay_in_set: "byDay s d = Some r \<Longrightarrow> r \<in> set s"
  unfolding byDay_def using byDay_fold_in_set [of s Map.empty d r] by simp

lemma toNumber_zero: "realOf (toNumber (JStr ''0'')) = 0"
  by (simp add: toNumber_def js_eval)

lemma dailyAmount_cases:
  "dailyAmount m key d = (case m d of None \<Rightarrow> 0 | Some r \<Rightarrow> amountOf r key)"
  by (simp add: dailyAmount_def amountOf_def toNumber_zero split: option.splits)

lemma dailyAmount_nonneg:
  assumes "nonnegAmounts rows" "key \<in> {K_current_month, K_last_year, K_record_month}"
  shows "0 \<le> dailyAmount (byDay (sortRows rows)) key d"
proof (cases "byDay (sortRows rows) d")
  case None
  then show ?thesis by (simp add: dailyAmount_cases)
next
  case (Some r)
  then have "r \<in> set rows" using byDay_in_set [of "sortRows rows" d r] by (simp add: set_sortRows)
  with assms have "0 \<le> amountOf r key" by (auto simp: nonnegAmounts_def list_all_iff)
  with Some show ?thesis by (simp add: dailyAmount_cases)
qed

lemma buildDaily_nonneg:
  assumes "nonnegAmounts rows" "key \<in> {K_current_month, K_last_year, K_record_month}"
  shows "\<forall>v \<in> set (buildDaily (byDay (sortRows rows)) key L). 0 \<le> v"
  using dailyAmount_nonneg [OF assms] by (auto simp: buildDaily_def)

lemma psum_0: "psum xs 0 = 0"
  by (simp add: psum_def)

lemma psum_nonneg: "\<forall>v \<in> set xs. 0 \<le> v \<Longrightarrow> 0 \<le> psum xs k"
  unfolding psum_def by (rule sum_list_nonneg) (auto dest: in_set_takeD)

lemma psum_mono:
  assumes "\<forall>v \<in> set xs. 0 \<le> v" "k \<le> k'"
  shows "psum xs k \<le> psum xs k'"
proof -
  have "take k' xs = take k xs @ take (k' - k) (drop k xs)"
    using assms(2) by (metis le_add_diff_inverse take_add)
  then have "psum xs k' = psum xs k + sum_list (take (k' - k) (drop k xs))"
    by (simp add: psum_def)
  moreover have "0 \<le> sum_list (take (k' - k) (drop k xs))"
    by (rule sum_list_nonneg) (use assms(1) in \<open>auto dest!: in_set_takeD in_set_dropD\<close>)
  ultimately show ?thesis by simp
qed

lemma psum_all: "length xs \<le> k \<Longrightarrow> psum xs k = sum_list xs"
  by (simp add: psum_def)

lemma cumulative_nth_psum: "k < length xs \<Longrightarrow> cumulative xs ! k = psum xs (Suc k)"
  by (simp add: cumulative_nth psum_def)

lemma interp_bounds:
  assumes "\<forall>v \<in> set xs. 0 \<le> v"
  shows "psum xs (nat \<lfloor>y\<rfloor>) \<le> interp xs y" "interp xs y \<le> psum xs (Suc (nat \<lfloor>y\<rfloor>))"
proof -
  let ?A = "psum xs (nat \<lfloor>y\<rfloor>)" and ?B = "psum xs (Suc (nat \<lfloor>y\<rfloor>))"
  let ?f = "y - real_of_int \<lfloor>y\<rfloor>"
  have ab: "?A \<le> ?B" by (rule psum_mono [OF assms]) simp
  have f: "0 \<le> ?f" "?f \<le> 1" by linarith+
  from ab f(1) have "0 \<le> (?B - ?A) * ?f" by simp
  then show "?A \<le> interp xs y" by (simp add: interp_def)
  from ab f(2) have "(?B - ?A) * ?f \<le> (?B - ?A) * 1"
    by (intro mult_left_mono) simp_all
  then show "interp xs y \<le> ?B" by (simp add: interp_def)
qed

lemma interp_mono:
  assumes nn: "\<forall>v \<in> set xs. 0 \<le> v" and "0 \<le> y" "y \<le> y'"
  shows "interp xs y \<le> interp xs y'"
proof (cases "\<lfloor>y\<rfloor> = \<lfloor>y'\<rfloor>")
  case True
  let ?A = "psum xs (nat \<lfloor>y\<rfloor>)" and ?B = "psum xs (Suc (nat \<lfloor>y\<rfloor>))"
  have ab: "0 \<le> ?B - ?A" using psum_mono [OF nn, of "nat \<lfloor>y\<rfloor>" "Suc (nat \<lfloor>y\<rfloor>)"] by simp
  have "y - real_of_int \<lfloor>y\<rfloor> \<le> y' - real_of_int \<lfloor>y\<rfloor>" using assms(3) by simp
  then have "(?B - ?A) * (y - real_of_int \<lfloor>y\<rfloor>) \<le> (?B - ?A) * (y' - real_of_int \<lfloor>y\<rfloor>)"
    using ab by (rule mult_left_mono)
  then show ?thesis by (simp add: interp_def True [symmetric])
next
  case False
  have "\<lfloor>y\<rfloor> \<le> \<lfloor>y'\<rfloor>" using assms(3) by (rule floor_mono)
  with False have lt: "\<lfloor>y\<rfloor> < \<lfloor>y'\<rfloor>" by simp
  have "0 \<le> \<lfloor>y\<rfloor>" using assms(2) by simp
  with lt have k: "Suc (nat \<lfloor>y\<rfloor>) \<le> nat \<lfloor>y'\<rfloor>" by linarith
  have "interp xs y \<le> psum xs (Suc (nat \<lfloor>y\<rfloor>))" by (rule interp_bounds(2) [OF nn])
  also have "\<dots> \<le> psum xs (nat \<lfloor>y'\<rfloor>)" by (rule psum_mono [OF nn k])
  also have "\<dots> \<le> interp xs y'" by (rule interp_bounds(1) [OF nn])
  finally show ?thesis .
qed

lemma interp_nonneg:
  assumes "\<forall>v \<in> set xs. 0 \<le> v"
  shows "0 \<le> interp xs y"
  using psum_nonneg [OF assms, of "nat \<lfloor>y\<rfloor>"] interp_bounds(1) [OF assms, of y] by simp

lemma cumAtProgress_interp:
  assumes L: "0 < L" "nat L = length xs"
  shows "cumAtProgress (cumulative xs) L p = interp xs (max 0 (min 1 p) * real_of_int L)"
proof -
  from L have len: "int (length xs) = L" by linarith
  consider "p \<le> 0" | "1 \<le> p" | "0 < p" "p < 1" by linarith
  then show ?thesis
  proof cases
    case 1
    then have "max 0 (min 1 p) = 0" by simp
    then show ?thesis using 1 by (simp add: cumAtProgress_def interp_def psum_0)
  next
    case 2
    then have m: "max 0 (min 1 p) = 1" by simp
    have "interp xs (real_of_int L) = psum xs (nat L)" by (simp add: interp_def)
    also have "\<dots> = sum_list xs" using L(2) by (simp add: psum_all)
    finally have "interp xs (real_of_int L) = sum_list xs" .
    moreover have "cumAtProgress (cumulative xs) L p = cumAtProgress (cumulative xs) L 1"
      using 2 L(1) by (simp add: cumAtProgress_def)
    ultimately show ?thesis
      using cumAtProgress_one [OF L] by (simp add: m)
  next
    case 3
    then have m: "max 0 (min 1 p) = p" by simp
    define y where "y = p * real_of_int L"
    define lo where "lo = \<lfloor>y\<rfloor>"
    have y0: "0 < y" using 3(1) L(1) by (simp add: y_def)
    have y1: "y < real_of_int L" using 3(2) L(1) by (simp add: y_def)
    have lo0: "0 \<le> lo" unfolding lo_def using y0 by linarith
    have lo1: "lo < L" unfolding lo_def using y1 by linarith
    have hi: "min (lo + 1) L = lo + 1" using lo1 by simp
    have n: "nat lo < length xs" using lo0 lo1 len by linarith
    have hiV: "at_or (cumulative xs) lo d = psum xs (Suc (nat lo))" for d
      using lo0 lo1 len cumulative_nth_psum [OF n] by (simp add: at_or_def length_cumulative)
    have loV: "(if 0 \<le> max (lo - 1) (- 1) then at_or (cumulative xs) (max (lo - 1) (- 1)) 0 else 0)
               = psum xs (nat lo)"
    proof (cases "lo = 0")
      case True
      then show ?thesis by (simp add: psum_0)
    next
      case False
      with lo0 have pos: "1 \<le> lo" by linarith
      then have mx: "max (lo - 1) (- 1) = lo - 1" by simp
      have s: "Suc (nat (lo - 1)) = nat lo" using pos by linarith
      have n1: "nat (lo - 1) < length xs" using pos lo1 len by linarith
      have "at_or (cumulative xs) (lo - 1) 0 = psum xs (Suc (nat (lo - 1)))"
        using pos lo1 len cumulative_nth_psum [OF n1] by (simp add: at_or_def length_cumulative)
      then show ?thesis using pos by (simp only: mx s) simp
    qed
    have "cumAtProgress (cumulative xs) L p =
          psum xs (nat lo) + (psum xs (Suc (nat lo)) - psum xs (nat lo)) * (y - real_of_int lo)"
      unfolding cumAtProgress_def Let_def y_def [symmetric] lo_def [symmetric] hi
      using 3 L(1) by (simp only: loV) (simp add: hiV)
    then show ?thesis by (simp add: m interp_def y_def lo_def)
  qed
qed

lemma cumAtProgress_mono:
  assumes nn: "\<forall>v \<in> set xs. 0 \<le> v" and L: "0 < L" "nat L = length xs" and pq: "p \<le> q"
  shows "cumAtProgress (cumulative xs) L p \<le> cumAtProgress (cumulative xs) L q"
proof -
  have "max 0 (min 1 p) \<le> max 0 (min 1 q)" using pq by simp
  then have "max 0 (min 1 p) * real_of_int L \<le> max 0 (min 1 q) * real_of_int L"
    using L(1) by (intro mult_right_mono) simp_all
  moreover have "0 \<le> max 0 (min 1 p) * real_of_int L" using L(1) by simp
  ultimately show ?thesis
    unfolding cumAtProgress_interp [OF L] by (intro interp_mono [OF nn])
qed

lemma cumAtProgress_nonneg:
  assumes nn: "\<forall>v \<in> set xs. 0 \<le> v" and L: "0 < L" "nat L = length xs"
  shows "0 \<le> cumAtProgress (cumulative xs) L p"
  unfolding cumAtProgress_interp [OF L] by (rule interp_nonneg [OF nn])

lemma cumOf_mono:
  assumes "nonnegAmounts rows" "key \<in> {K_current_month, K_last_year, K_record_month}"
    and "0 < L" "p \<le> q"
  shows "cumAtProgress (cumOf rows key L) L p \<le> cumAtProgress (cumOf rows key L) L q"
  unfolding cumOf_def
  by (rule cumAtProgress_mono [OF buildDaily_nonneg [OF assms(1,2)] assms(3) _ assms(4)])
    (simp add: length_buildDaily)

lemma cumOf_nonneg:
  assumes "nonnegAmounts rows" "key \<in> {K_current_month, K_last_year, K_record_month}"
    and "0 < L"
  shows "0 \<le> cumAtProgress (cumOf rows key L) L p"
  unfolding cumOf_def
  by (rule cumAtProgress_nonneg [OF buildDaily_nonneg [OF assms(1,2)] assms(3)])
    (simp add: length_buildDaily)

lemma lens_pos: "0 < curLenOf rows" "0 < recLenOf rows"
  using inferLen_range [of "[K_current_month, K_last_year]" "sortRows rows"]
    inferLen_range [of "[K_record_month]" "sortRows rows"]
  by (simp_all add: curLenOf_def recLenOf_def)

lemma amountCap_nonneg: "0 \<le> amountCap"
  by (simp add: amountCap_def)

lemma amountCap_finite: "31 * amountCap < dbl_overflow"
  by (simp add: amountCap_def dbl_overflow_def)

lemma cumulative_leaves_range:
  "toDouble (10 ^ 308) = Fin (10 ^ 308) \<and> toDouble (cumulative [10 ^ 308, 10 ^ 308] ! 1) = PosInf"
  by (simp add: cumulative_def toDouble_def dbl_overflow_def)

lemma dailyAmount_le:
  assumes "cappedAmounts rows" "key \<in> {K_current_month, K_last_year, K_record_month}"
  shows "dailyAmount (byDay (sortRows rows)) key d \<le> amountCap"
proof (cases "byDay (sortRows rows) d")
  case None
  then show ?thesis by (simp add: dailyAmount_cases amountCap_nonneg)
next
  case (Some r)
  then have "r \<in> set rows" using byDay_in_set [of "sortRows rows" d r] by (simp add: set_sortRows)
  with assms have "amountOf r key \<le> amountCap" by (auto simp: cappedAmounts_def list_all_iff)
  with Some show ?thesis by (simp add: dailyAmount_cases)
qed

lemma buildDaily_le:
  assumes "cappedAmounts rows" "key \<in> {K_current_month, K_last_year, K_record_month}"
  shows "\<forall>v \<in> set (buildDaily (byDay (sortRows rows)) key L). v \<le> amountCap"
  using dailyAmount_le [OF assms] by (auto simp: buildDaily_def)

lemma sum_list_le: "\<forall>v \<in> set xs. v \<le> B \<Longrightarrow> sum_list xs \<le> real (length xs) * B"
  by (induction xs) (auto simp: algebra_simps)

lemma psum_le:
  assumes "\<forall>v \<in> set xs. v \<le> B" "0 \<le> B"
  shows "psum xs k \<le> real (length xs) * B"
proof -
  have "\<forall>v \<in> set (take k xs). v \<le> B" using assms(1) by (auto dest: in_set_takeD)
  then have "psum xs k \<le> real (length (take k xs)) * B" unfolding psum_def by (rule sum_list_le)
  also have "\<dots> \<le> real (length xs) * B" using assms(2) by (intro mult_right_mono) simp_all
  finally show ?thesis .
qed

lemma cumAtProgress_le:
  assumes nn: "\<forall>v \<in> set xs. 0 \<le> v" and le: "\<forall>v \<in> set xs. v \<le> B" and B: "0 \<le> B"
    and L: "0 < L" "nat L = length xs"
  shows "cumAtProgress (cumulative xs) L p \<le> real_of_int L * B"
proof -
  let ?y = "max 0 (min 1 p) * real_of_int L"
  have "interp xs ?y \<le> psum xs (Suc (nat \<lfloor>?y\<rfloor>))" by (rule interp_bounds(2) [OF nn])
  also have "\<dots> \<le> real (length xs) * B" by (rule psum_le [OF le B])
  also have "real (length xs) = real_of_int L" using L by linarith
  finally show ?thesis unfolding cumAtProgress_interp [OF L] .
qed

lemma cumOf_finite:
  assumes "nonnegAmounts rows" "cappedAmounts rows"
    and "key \<in> {K_current_month, K_last_year, K_record_month}" "0 < L" "L \<le> 31"
  shows "cumAtProgress (cumOf rows key L) L p < dbl_overflow"
proof -
  have "cumAtProgress (cumOf rows key L) L p \<le> real_of_int L * amountCap"
    unfolding cumOf_def
    by (rule cumAtProgress_le [OF buildDaily_nonneg [OF assms(1,3)] buildDaily_le [OF assms(2,3)]
          amountCap_nonneg assms(4)]) (simp add: length_buildDaily)
  also have "\<dots> \<le> 31 * amountCap"
    using assms(5) amountCap_nonneg by (intro mult_right_mono) simp_all
  also have "\<dots> < dbl_overflow" by (rule amountCap_finite)
  finally show ?thesis .
qed

lemma lens_le: "curLenOf rows \<le> 31" "recLenOf rows \<le> 31"
  using inferLen_range [of "[K_current_month, K_last_year]" "sortRows rows"]
    inferLen_range [of "[K_record_month]" "sortRows rows"]
  by (simp_all add: curLenOf_def recLenOf_def)

lemma zero_finite: "0 < dbl_overflow"
  by (simp add: dbl_overflow_def)

subsection \<open>Evaluation on the example inputs\<close>

lemma rowDay_mkRow: "rowDay (mkRow d c r l) = intOf (parseDay (JStr d))"
  by (simp add: rowDay_def mkRow_def)

lemma field_mkRow:
  "base_month_day (mkRow d c r l) = Some d"
  "current_month_total_amount_released (mkRow d c r l) = Some c"
  "record_month_total_amount_released (mkRow d c r l) = Some r"
  "last_year_current_month_total_amount_released (mkRow d c r l) = Some l"
  by (simp_all add: mkRow_def)

lemmas norm_eval =
  js_eval rowDay_mkRow field_mkRow parseDay_def rawOf_def isPresent_def toNumber_def
  inferLen_def inferLoop_def inferTodayDay_def todayLoop_def maxDayOr_def
  Math_round_def

lemma nth_0_100: "k \<le> 100 \<Longrightarrow> [0..100] ! k = int k"
  using nth_upto [of 0 k 100] by simp

lemma data_length: "rows \<noteq> [] \<Longrightarrow> length (data (transformApiToNormalizedChart (Some rows))) = 101"
  by (simp add: transform_data del: upto_rec_numeral)

lemma data_nth:
  assumes "rows \<noteq> []" "k \<le> 100"
  shows "data (transformApiToNormalizedChart (Some rows)) ! k =
     chartRowAt (cumOf rows K_current_month (curLenOf rows))
            (cumOf rows K_last_year (curLenOf rows))
            (cumOf rows K_record_month (recLenOf rows))
            (curLenOf rows) (recLenOf rows) (progressOf rows) (int k)"
  using assms by (simp add: transform_data nth_0_100 del: upto_rec_numeral)

lemma rows_half_sorted:
  "sortRows rows_half = [mkRow ''7'' ''100'' ''40'' ''30'', mkRow ''14'' ''200'' ''60'' ''50'']"
  by (simp add: rows_half_def sortRows_def norm_eval)

lemma rows_half_meta:
  "curLenOf rows_half = 28" "recLenOf rows_half = 28" "todayOf rows_half = 14"
  "progressOf rows_half = 50"
  by (simp_all add: curLenOf_def recLenOf_def todayOf_def progressOf_def rows_half_sorted
      norm_eval)



lemma rows_scenario_days: "map rowDay rows_scenario = [1..29]"
  by (simp add: rows_scenario_def norm_eval upto_rec1)

lemma rows_scenario_image: "rowDay ` set rows_scenario = {1..29}"
proof -
  have "rowDay ` set rows_scenario = set (map rowDay rows_scenario)" by simp
  also have "\<dots> = {1..29}" by (simp only: rows_scenario_days set_upto)
  finally show ?thesis .
qed

lemma rows_scenario_current:
  "\<forall>r \<in> set rows_scenario. current_month_total_amount_released r =
     Some (if rowDay r = 29 then ''nan'' else ''100'')"
  by (simp add: rows_scenario_def norm_eval)

lemma rows_scenario_last:
  "\<exists>r \<in> set rows_scenario. rowDay r = 29
      \<and> isPresent (rawOf (last_year_current_month_total_amount_released r))"
proof
  show "mkRow ''29'' ''nan'' ''70'' ''50'' \<in> set rows_scenario"
    by (simp add: rows_scenario_def)
  show "rowDay (mkRow ''29'' ''nan'' ''70'' ''50'') = 29
      \<and> isPresent (rawOf (last_year_current_month_total_amount_released
                            (mkRow ''29'' ''nan'' ''70'' ''50'')))"
    by (simp add: norm_eval)
qed

lemma rows_gap_sorted: "sortRows rows_gap = rows_gap"
  by (simp add: rows_gap_def sortRows_def norm_eval)

lemma rows_blank_sorted: "sortRows rows_blank = rows_blank"
  by (simp add: rows_blank_def sortRows_def norm_eval)

lemma rows_blank_meta: "curLenOf rows_blank = 28" "todayOf rows_blank = 28"
  "inferTodayDay (sortRows rows_blank) = 30"
  unfolding todayOf_def curLenOf_def rows_blank_sorted
  by (simp_all add: rows_blank_def norm_eval)

lemma rows_half_nonneg: "nonnegAmounts rows_half"
  by (simp add: nonnegAmounts_def amountOf_def rows_half_def norm_eval)

lemma rows_half_capped: "cappedAmounts rows_half"
  by (simp add: cappedAmounts_def amountCap_def amountOf_def rows_half_def norm_eval)

lemma rows_refund_sorted: "sortRows rows_refund = rows_refund"
  by (simp add: rows_refund_def sortRows_def norm_eval)

lemma rows_refund_meta:
  "curLenOf rows_refund = 28" "recLenOf rows_refund = 28" "progressOf rows_refund = 7"
  unfolding progressOf_def todayOf_def curLenOf_def recLenOf_def rows_refund_sorted
  by (simp_all add: rows_refund_def norm_eval)

lemma rows_refund_byDay:
  "byDay (sortRows rows_refund) =
     [1 \<mapsto> mkRow ''1'' ''10'' ''10'' ''10'', 2 \<mapsto> mkRow ''2'' ''-30'' ''-30'' ''-30'']"
  unfolding rows_refund_sorted by (simp add: byDay_def rows_refund_def norm_eval)

lemma rows_refund_daily:
  "buildDaily (byDay (sortRows rows_refund)) K_current_month 28 = [10, - 30, 0, 0, 0, 0, 0, 0, 0, 0, 0, 0, 0, 0, 0, 0, 0, 0, 0, 0, 0, 0, 0, 0, 0, 0, 0, 0]"
  "buildDaily (byDay (sortRows rows_refund)) K_last_year 28 = [10, - 30, 0, 0, 0, 0, 0, 0, 0, 0, 0, 0, 0, 0, 0, 0, 0, 0, 0, 0, 0, 0, 0, 0, 0, 0, 0, 0]"
  "buildDaily (byDay (sortRows rows_refund)) K_record_month 28 = [10, - 30, 0, 0, 0, 0, 0, 0, 0, 0, 0, 0, 0, 0, 0, 0, 0, 0, 0, 0, 0, 0, 0, 0, 0, 0, 0, 0]"
  by (simp_all add: rows_refund_byDay buildDaily_def dailyAmount_def upto_rec1 norm_eval)

lemma refund_cumulative:
  "cumulative [10, - 30, 0, 0, 0, 0, 0, 0, 0, 0, 0, 0, 0, 0, 0, 0, 0, 0, 0, 0, 0, 0, 0, 0, 0, 0, 0, 0] = [10, - 20, - 20, - 20, - 20, - 20, - 20, - 20, - 20, - 20, - 20, - 20, - 20, - 20, - 20, - 20, - 20, - 20, - 20, - 20, - 20, - 20, - 20, - 20, - 20, - 20, - 20, - 20]"
  by (simp add: cumulative_def)

lemma rows_refund_cum:
  "cumOf rows_refund K_current_month 28 = [10, - 20, - 20, - 20, - 20, - 20, - 20, - 20, - 20, - 20, - 20, - 20, - 20, - 20, - 20, - 20, - 20, - 20, - 20, - 20, - 20, - 20, - 20, - 20, - 20, - 20, - 20, - 20]"
  "cumOf rows_refund K_last_year 28 = [10, - 20, - 20, - 20, - 20, - 20, - 20, - 20, - 20, - 20, - 20, - 20, - 20, - 20, - 20, - 20, - 20, - 20, - 20, - 20, - 20, - 20, - 20, - 20, - 20, - 20, - 20, - 20]"
  "cumOf rows_refund K_record_month 28 = [10, - 20, - 20, - 20, - 20, - 20, - 20, - 20, - 20, - 20, - 20, - 20, - 20, - 20, - 20, - 20, - 20, - 20, - 20, - 20, - 20, - 20, - 20, - 20, - 20, - 20, - 20, - 20]"
  by (simp_all only: cumOf_def rows_refund_daily refund_cumulative)

section \<open>Facts about the summary labels\<close>

subsection \<open>Rounding\<close>

lemma flog2_ge2: "2 \<le> x \<Longrightarrow> flog2 x = flog2 (x / 2) + 1"
  by (subst flog2.simps) simp

lemma flog2_lt1: "0 < x \<Longrightarrow> x < 1 \<Longrightarrow> flog2 x = flog2 (x * 2) - 1"
  by (subst flog2.simps) simp

lemma flog2_unit: "1 \<le> x \<Longrightarrow> x < 2 \<Longrightarrow> flog2 x = 0"
  by (subst flog2.simps) simp

lemma pow2_powi: "pow2 e = 2 powi e"
  by (simp add: pow2_def power_int_def inverse_eq_divide power_one_over)

lemma pow2_pos: "0 < pow2 e"
  by (simp add: pow2_powi)

lemma pow2_add: "pow2 (a + b) = pow2 a * pow2 b"
  by (simp add: pow2_powi power_int_add)

lemma pow2_Suc: "pow2 (e + 1) = 2 * pow2 e"
  using pow2_add [of e 1] by (simp add: pow2_def)

lemma pow2_less_iff: "pow2 a < pow2 b \<longleftrightarrow> a < b"
proof
  assume "a < b"
  then show "pow2 a < pow2 b"
    unfolding pow2_powi by (intro power_int_strict_increasing) simp_all
next
  assume l: "pow2 a < pow2 b"
  show "a < b"
  proof (rule ccontr)
    assume "\<not> a < b"
    then have "b \<le> a" by simp
    then have "pow2 b \<le> pow2 a"
      unfolding pow2_powi by (intro power_int_increasing) simp_all
    with l show False by simp
  qed
qed

lemma flog2_bounds: "0 < x \<Longrightarrow> pow2 (flog2 x) \<le> x \<and> x < pow2 (flog2 x + 1)"
proof (induction x rule: flog2.induct)
  case (1 x)
  consider "2 \<le> x" | "x < 1" | "1 \<le> x" "x < 2" by linarith
  then show ?case
  proof cases
    case 1
    with "1.prems" have ih: "pow2 (flog2 (x / 2)) \<le> x / 2 \<and> x / 2 < pow2 (flog2 (x / 2) + 1)"
      by (intro "1.IH"(1)) simp_all
    have f: "flog2 x = flog2 (x / 2) + 1" using 1 by (rule flog2_ge2)
    show ?thesis unfolding f pow2_Suc using ih by (simp add: pow2_Suc)
  next
    case 2
    with "1.prems" have ih: "pow2 (flog2 (x * 2)) \<le> x * 2 \<and> x * 2 < pow2 (flog2 (x * 2) + 1)"
      by (intro "1.IH"(2)) simp_all
    have f: "flog2 x = flog2 (x * 2) - 1" using "1.prems" 2 by (rule flog2_lt1)
    have p: "pow2 (flog2 (x * 2)) = 2 * pow2 (flog2 (x * 2) - 1)"
      using pow2_Suc [of "flog2 (x * 2) - 1"] by simp
    have p': "pow2 (flog2 (x * 2) + 1) = 2 * pow2 (flog2 (x * 2))" by (rule pow2_Suc)
    have g: "flog2 (x * 2) - 1 + 1 = flog2 (x * 2)" by simp
    show ?thesis unfolding f g using ih p p' by linarith
  next
    case 3
    then show ?thesis by (simp add: flog2_unit pow2_def)
  qed
qed

lemma roundEven_err: "\<bar>real_of_int (roundEven r) - r\<bar> \<le> 1 / 2"
  unfolding roundEven_def Let_def by (auto; linarith)

lemma roundEven_of_int: "roundEven (real_of_int z) = z"
  by (simp add: roundEven_def)

lemma expo_normal:
  assumes "pow2 (- 1022) \<le> \<bar>x\<bar>"
  shows "expo x = flog2 \<bar>x\<bar>" "pow2 (expo x) \<le> \<bar>x\<bar>" "\<bar>x\<bar> < pow2 (expo x + 1)"
proof -
  have pos: "0 < \<bar>x\<bar>" using assms pow2_pos [of "- 1022"] by linarith
  have b: "pow2 (flog2 \<bar>x\<bar>) \<le> \<bar>x\<bar>" "\<bar>x\<bar> < pow2 (flog2 \<bar>x\<bar> + 1)"
    using flog2_bounds [OF pos] by simp_all
  have "pow2 (- 1022) < pow2 (flog2 \<bar>x\<bar> + 1)" using assms b(2) by linarith
  then have "- 1022 < flog2 \<bar>x\<bar> + 1" by (simp only: pow2_less_iff)
  then show e: "expo x = flog2 \<bar>x\<bar>" by (simp add: expo_def)
  show "pow2 (expo x) \<le> \<bar>x\<bar>" "\<bar>x\<bar> < pow2 (expo x + 1)" unfolding e by (rule b)+
qed

lemma fl_err:
  assumes "pow2 (- 1022) \<le> \<bar>x\<bar>"
  shows "\<bar>fl x - x\<bar> \<le> \<bar>x\<bar> / 2 ^ 53"
proof -
  have pos: "0 < \<bar>x\<bar>" using assms pow2_pos [of "- 1022"] by linarith
  then have x0: "x \<noteq> 0" by simp
  define q :: real where "q = pow2 (expo x - 52)"
  have q0: "0 < q" by (simp add: q_def pow2_pos)
  have "fl x = real_of_int (roundEven (x / q)) * q"
    using x0 by (simp add: fl_def q_def Let_def)
  then have "fl x - x = (real_of_int (roundEven (x / q)) - x / q) * q"
    using q0 by (simp add: field_simps)
  then have "\<bar>fl x - x\<bar> = \<bar>real_of_int (roundEven (x / q)) - x / q\<bar> * q"
    using q0 by (simp add: abs_mult)
  also have "\<dots> \<le> 1 / 2 * q"
    using roundEven_err [of "x / q"] q0 by (intro mult_right_mono) simp_all
  also have "\<dots> = pow2 (expo x) / 2 ^ 53"
  proof -
    have "pow2 (expo x - 52) = pow2 (expo x) * pow2 (- 52)"
      using pow2_add [of "expo x" "- 52"] by simp
    then show ?thesis by (simp add: q_def pow2_def)
  qed
  also have "\<dots> \<le> \<bar>x\<bar> / 2 ^ 53"
    using expo_normal(2) [OF assms] by (simp add: divide_right_mono)
  finally show ?thesis .
qed

lemma fl_of_int:
  assumes "\<bar>n\<bar> < 2 ^ 53"
  shows "fl (real_of_int n) = real_of_int n"
proof (cases "n = 0")
  case True
  then show ?thesis by (simp add: fl_def)
next
  case False
  let ?x = "real_of_int n"
  have one: "1 \<le> \<bar>?x\<bar>" using False by (simp flip: of_int_abs)
  have norm: "pow2 (- 1022) \<le> \<bar>?x\<bar>"
  proof -
    have "pow2 (- 1022) \<le> 1" by (simp add: pow2_def)
    with one show ?thesis by linarith
  qed
  define e where "e = expo ?x"
  have b: "pow2 e \<le> \<bar>?x\<bar>" "\<bar>?x\<bar> < pow2 (e + 1)"
    using expo_normal(2,3) [OF norm] by (simp_all add: e_def)
  have "pow2 0 \<le> \<bar>?x\<bar>" using one by (simp add: pow2_def)
  with b(2) have "pow2 0 < pow2 (e + 1)" by linarith
  then have e0: "0 \<le> e" by (simp add: pow2_less_iff)
  have "\<bar>?x\<bar> < pow2 53" using assms by (simp add: pow2_def flip: of_int_abs) 
  with b(1) have "pow2 e < pow2 53" by linarith
  then have e52: "e \<le> 52" by (simp add: pow2_less_iff)
  define s where "s = nat (52 - e)"
  have q: "pow2 (e - 52) = 1 / 2 ^ s"
    using e52 by (auto simp: pow2_def s_def)
  have "?x / pow2 (e - 52) = real_of_int (n * 2 ^ s)" by (simp add: q)
  then have r: "roundEven (?x / pow2 (e - 52)) = n * 2 ^ s"
    by (simp only: roundEven_of_int)
  have "fl ?x = real_of_int (roundEven (?x / pow2 (e - 52))) * pow2 (e - 52)"
    using False by (simp add: fl_def Let_def e_def)
  also have "\<dots> = real_of_int (n * 2 ^ s) * (1 / 2 ^ s)" by (simp only: r) (simp only: q)
  also have "\<dots> = ?x" by simp
  finally show ?thesis .
qed

lemma roundEven_div:
  assumes "0 < b"
  shows "roundEven (real_of_int a / real_of_int b) =
     (if 2 * (a mod b) < b then a div b
      else if b < 2 * (a mod b) then a div b + 1
      else if even (a div b) then a div b else a div b + 1)"
proof -
  have f: "\<lfloor>real_of_int a / real_of_int b\<rfloor> = a div b"
    by (simp add: floor_divide_of_int_eq)
  have "real_of_int a = real_of_int (a div b) * real_of_int b + real_of_int (a mod b)"
    by (metis div_mult_mod_eq of_int_add of_int_mult)
  then have d: "real_of_int a / real_of_int b - real_of_int (a div b) =
      real_of_int (a mod b) / real_of_int b"
    using assms by (simp add: field_simps)
  have c1: "real_of_int (a mod b) / real_of_int b < 1 / 2 \<longleftrightarrow> 2 * (a mod b) < b"
    using assms by (simp add: field_simps) linarith
  have c2: "1 / 2 < real_of_int (a mod b) / real_of_int b \<longleftrightarrow> b < 2 * (a mod b)"
    using assms by (simp add: field_simps) linarith
  show ?thesis
    unfolding roundEven_def Let_def f d c1 c2 by simp
qed

lemma roundEven_numeral_div:
  "roundEven (numeral a / numeral b) =
     (if 2 * (numeral a mod numeral b) < (numeral b :: int) then numeral a div numeral b
      else if (numeral b :: int) < 2 * (numeral a mod numeral b) then numeral a div numeral b + 1
      else if even (numeral a div numeral b :: int) then numeral a div numeral b
      else numeral a div numeral b + 1)"
  using roundEven_div [of "numeral b" "numeral a"] by simp

lemma roundEven_numeral: "roundEven (numeral a) = numeral a"
  using roundEven_of_int [of "numeral a"] by simp

lemmas fl_fast = fl_def expo_def pow2_def flog2_ge2 flog2_lt1 flog2_unit Let_def
  roundEven_numeral_div roundEven_numeral

lemma roundEven_near_even:
  assumes "even m" "\<bar>d\<bar> \<le> 1 / 2"
  shows "roundEven (real_of_int m + d) = m"
proof -
  consider "d = 1 / 2" | "d = - 1 / 2" | "- 1 / 2 < d" "d < 1 / 2" using assms(2) by linarith
  then show ?thesis
  proof cases
    case 1
    have f: "\<lfloor>real_of_int m + d\<rfloor> = m" unfolding 1 by linarith
    show ?thesis unfolding roundEven_def Let_def f using assms(1) 1 by simp
  next
    case 2
    have f: "\<lfloor>real_of_int m + d\<rfloor> = m - 1" unfolding 2 by linarith
    show ?thesis unfolding roundEven_def Let_def f using assms(1) 2 by simp
  next
    case 3
    show ?thesis
    proof (cases "0 \<le> d")
      case True
      have f: "\<lfloor>real_of_int m + d\<rfloor> = m" using True 3 by linarith
      show ?thesis unfolding roundEven_def Let_def f using 3 by simp
    next
      case False
      have f: "\<lfloor>real_of_int m + d\<rfloor> = m - 1" using False 3 by linarith
      show ?thesis unfolding roundEven_def Let_def f using 3 False by simp
    qed
  qed
qed

lemma pow2_le_iff: "pow2 a \<le> pow2 b \<longleftrightarrow> a \<le> b"
  using pow2_less_iff [of b a] by (simp add: not_less [symmetric])

lemma pow2_neg: "0 \<le> n \<Longrightarrow> pow2 (- n) = 1 / 2 ^ nat n"
  by (cases "n = 0") (simp_all add: pow2_def)

lemma pow2_nat: "pow2 (int n) = 2 ^ n"
  by (simp add: pow2_def)

lemma pow2_plus_nat: "pow2 (e + int n) = pow2 e * 2 ^ n"
  by (simp only: pow2_add pow2_nat)

lemma fl_unfold:
  "x \<noteq> 0 \<Longrightarrow> fl x = real_of_int (roundEven (x / pow2 (expo x - 52))) * pow2 (expo x - 52)"
  by (simp add: fl_def Let_def)

lemma fl_tenth_times_ten:
  assumes "1 \<le> k" "k \<le> 1000"
  shows "fl (fl (real k / 10) * 10) = real k"
proof -
  define x where "x = real k / 10"
  have xpos: "0 < x" using assms by (simp add: x_def)
  have norm: "pow2 (- 1022) \<le> \<bar>x\<bar>"
  proof -
    have "pow2 (- 1022) \<le> 1 / 10" by (simp add: pow2_def)
    also have "\<dots> \<le> \<bar>x\<bar>" using assms by (simp add: x_def)
    finally show ?thesis .
  qed
  define e where "e = expo x"
  have b: "pow2 e \<le> x" "x < pow2 (e + 1)"
    using expo_normal(2,3) [OF norm] xpos by (simp_all add: e_def)
  have "x < pow2 7" using assms by (simp add: x_def pow2_def)
  with b(1) have "pow2 e < pow2 7" by linarith
  then have e7: "e < 7" by (simp only: pow2_less_iff)
  have "pow2 (- 4) \<le> x" using assms by (simp add: x_def pow2_def)
  with b(2) have "pow2 (- 4) < pow2 (e + 1)" by linarith
  then have e4: "- 4 < e + 1" by (simp only: pow2_less_iff)
  define s where "s = nat (52 - e)"
  have s45: "46 \<le> s" "s \<le> 56" using e7 e4 by (simp_all add: s_def)
  have q: "pow2 (e - 52) = 1 / 2 ^ s"
    using pow2_neg [of "52 - e"] e7 by (simp add: s_def)
  have pe: "pow2 e = 2 ^ 52 / 2 ^ s"
  proof -
    have a: "pow2 e = pow2 52 * pow2 (e - 52)" using pow2_add [of 52 "e - 52"] by simp
    have c: "pow2 52 = 2 ^ 52" using pow2_nat [of 52] by simp
    show ?thesis unfolding a q c by simp
  qed
  define K :: int where "K = int k * 2 ^ s"
  define N where "N = roundEven (real_of_int K / 10)"
  define D where "D = 10 * N - K"
  have xq: "x / pow2 (e - 52) = real_of_int K / 10"
    by (simp add: q x_def K_def)
  have flx: "fl x = real_of_int N / 2 ^ s"
  proof -
    have "fl x = real_of_int (roundEven (x / pow2 (e - 52))) * pow2 (e - 52)"
      unfolding e_def using xpos by (intro fl_unfold) simp
    then have "fl x = real_of_int (roundEven (real_of_int K / 10)) * pow2 (e - 52)"
      by (simp only: xq)
    then have "fl x = real_of_int N * (1 / 2 ^ s)"
      by (simp only: N_def [symmetric] q)
    then show ?thesis by simp
  qed
  have Keven: "even K" using s45 by (simp add: K_def)
  have ne: "\<bar>real_of_int N - real_of_int K / 10\<bar> \<le> 1 / 2"
    unfolding N_def by (rule roundEven_err)
  define dl where "dl = real_of_int N - real_of_int K / 10"
  have dr: "real_of_int D = 10 * dl"
    by (simp add: D_def dl_def)
  have "\<bar>dl\<bar> \<le> 1 / 2" using ne by (simp only: dl_def)
  then have "\<bar>real_of_int D\<bar> \<le> 5" unfolding dr by simp
  then have D5: "\<bar>D\<bar> \<le> 5" by linarith
  have "even D" using Keven by (simp add: D_def)
  then have "\<bar>D\<bar> \<noteq> 5" by presburger
  with D5 have D4: "\<bar>D\<bar> \<le> 4" by linarith
  have Kb: "2 ^ 52 \<le> real_of_int K / 10" "real_of_int K / 10 < 2 ^ 53"
  proof -
    have "pow2 e \<le> x" by (rule b)
    then have "2 ^ 52 / 2 ^ s \<le> x" by (simp only: pe)
    then have "2 ^ 52 \<le> x * 2 ^ s" by (simp add: field_simps)
    then show "2 ^ 52 \<le> real_of_int K / 10" by (simp add: x_def K_def)
    have "pow2 (e + 1) = 2 * (2 ^ 52 / 2 ^ s)" by (simp only: pow2_Suc pe)
    with b(2) have "x < 2 * (2 ^ 52 / 2 ^ s)" by simp
    then have "x * 2 ^ s < 2 ^ 53" by (simp add: field_simps)
    then show "real_of_int K / 10 < 2 ^ 53" by (simp add: x_def K_def)
  qed
  have Nerr: "\<bar>real_of_int N - real_of_int K / 10\<bar> \<le> 1 / 2"
    unfolding N_def by (rule roundEven_err)
  have Nb: "2 ^ 52 \<le> N" "N \<le> 2 ^ 53"
  proof -
    define P :: real where "P = 2 ^ 52"
    define r where "r = real_of_int K / 10"
    have k1: "P \<le> r" "r < 2 * P" using Kb by (simp_all add: P_def r_def)
    have k2: "\<bar>real_of_int N - r\<bar> \<le> 1 / 2" using Nerr by (simp only: r_def)
    have p1: "P - 1 = real_of_int (2 ^ 52 - 1)" "2 * P + 1 = real_of_int (2 ^ 53 + 1)"
      by (simp_all add: P_def)
    have "P - 1 < real_of_int N" using k1(1) k2 by linarith
    then have "2 ^ 52 - 1 < N" by (simp only: p1 of_int_less_iff)
    then show "2 ^ 52 \<le> N" by simp
    have "real_of_int N < 2 * P + 1" using k1(2) k2 by linarith
    then have "N < 2 ^ 53 + 1" by (simp only: p1 of_int_less_iff)
    then show "N \<le> 2 ^ 53" by simp
  qed
  define y where "y = fl x * 10"
  have y: "y = real_of_int (K + D) / 2 ^ s" by (simp add: y_def flx D_def)
  have yb: "pow2 (e + 3) \<le> y" "y < pow2 (e + 5)"
  proof -
    have p3: "pow2 (e + 3) = 8 * (2 ^ 52 / 2 ^ s)"
      using pow2_plus_nat [of e 3] unfolding pe by simp
    have p5: "pow2 (e + 5) = 32 * (2 ^ 52 / 2 ^ s)"
      using pow2_plus_nat [of e 5] unfolding pe by simp
    have yN: "y = 10 * (real_of_int N / 2 ^ s)" by (simp add: y_def flx)
    have n1: "2 ^ 52 / 2 ^ s \<le> real_of_int N / (2 ^ s :: real)"
      using Nb(1) by (intro divide_right_mono) simp_all
    have n2: "real_of_int N / (2 ^ s :: real) \<le> 2 * (2 ^ 52 / 2 ^ s)"
    proof -
      have "real_of_int N \<le> real_of_int (2 ^ 53)" using Nb(2) by (simp only: of_int_le_iff)
      then have "real_of_int N \<le> 2 ^ 53" by simp
      then have "real_of_int N / (2 ^ s :: real) \<le> 2 ^ 53 / 2 ^ s"
        by (intro divide_right_mono) simp_all
      then show ?thesis by simp
    qed
    have pp: "0 < (2 ^ 52 / 2 ^ s :: real)" by simp
    show "pow2 (e + 3) \<le> y" unfolding p3 yN using n1 pp by linarith
    show "y < pow2 (e + 5)" unfolding p5 yN using n2 pp by linarith
  qed
  have ypos: "0 < y" using yb(1) pow2_pos [of "e + 3"] by linarith
  have ynorm: "pow2 (- 1022) \<le> \<bar>y\<bar>"
  proof -
    have "pow2 (- 1022) \<le> pow2 (e + 3)" using e4 by (simp only: pow2_le_iff)
    with yb(1) ypos show ?thesis by simp
  qed
  define e' where "e' = expo y"
  have b': "pow2 e' \<le> y" "y < pow2 (e' + 1)"
    using expo_normal(2,3) [OF ynorm] ypos by (simp_all add: e'_def)
  have "pow2 e' < pow2 (e + 5)" using b'(1) yb(2) by linarith
  then have g5: "e' < e + 5" by (simp only: pow2_less_iff)
  have "pow2 (e + 3) < pow2 (e' + 1)" using b'(2) yb(1) by linarith
  then have g3: "e + 3 < e' + 1" by (simp only: pow2_less_iff)
  define g where "g = nat (e' - e)"
  have g34: "3 \<le> g" "g \<le> 4" using g3 g5 by (simp_all add: g_def)
  have gs: "g < s" using g34 s45 by simp
  have q': "pow2 (e' - 52) = 2 ^ g / 2 ^ s"
  proof -
    have "pow2 (e' - 52) = pow2 (int g) * pow2 (e - 52)"
      using pow2_add [of "int g" "e - 52"] g3 by (simp add: g_def)
    then show ?thesis by (simp add: q pow2_nat)
  qed
  define M :: int where "M = int k * 2 ^ (s - g)"
  have Meven: "even M" using gs by (simp add: M_def)
  have KM: "K = M * 2 ^ g"
  proof -
    have "(2::int) ^ s = 2 ^ (s - g) * 2 ^ g" using gs by (simp flip: power_add)
    then show ?thesis by (simp add: K_def M_def)
  qed
  have yq: "y / pow2 (e' - 52) = real_of_int M + real_of_int D / 2 ^ g"
    by (simp add: y q' KM field_simps)
  have dsmall: "\<bar>real_of_int D / 2 ^ g\<bar> \<le> 1 / 2"
  proof -
    have "(2::real) ^ 3 \<le> 2 ^ g" using g34(1) by (intro power_increasing) simp_all
    then have g8: "(8::real) \<le> 2 ^ g" by simp
    have "\<bar>real_of_int D\<bar> \<le> 4" using D4 by linarith
    then have "\<bar>real_of_int D\<bar> * 2 \<le> 2 ^ g" using g8 by linarith
    then show ?thesis by (simp add: field_simps)
  qed
  have r: "roundEven (y / pow2 (e' - 52)) = M"
    unfolding yq using Meven dsmall by (rule roundEven_near_even)
  have "fl y = real_of_int (roundEven (y / pow2 (e' - 52))) * pow2 (e' - 52)"
    unfolding e'_def using ypos by (intro fl_unfold) simp
  then have "fl y = real_of_int M * pow2 (e' - 52)"
    by (simp only: r)
  then have "fl y = real_of_int M * (2 ^ g / 2 ^ s)"
    by (simp only: q')
  also have "\<dots> = real_of_int K / 2 ^ s" by (simp add: KM)
  also have "\<dots> = real k" by (simp add: K_def)
  finally show ?thesis by (simp add: y_def x_def)
qed

subsection \<open>Digits and labels\<close>

lemma showNat_digit: "n < 10 \<Longrightarrow> showNat n = [digitChar n]"
  by (simp add: showNat.simps)

lemma showNat_step: "10 \<le> n \<Longrightarrow> showNat n = showNat (n div 10) @ [digitChar (n mod 10)]"
  by (subst showNat.simps) simp

lemma showNat_nonempty: "showNat n \<noteq> []"
  by (subst showNat.simps) simp

lemma toFixed0_whole:
  assumes "j < 10 ^ 21"
  shows "toFixed E 0 (real j) = showNat j"
proof -
  have "\<lfloor>real j + 1 / 2\<rfloor> = int j" by linarith
  moreover have "\<not> (10::real) ^ 21 \<le> \<bar>real j\<bar>"
  proof -
    have "real j < real ((10::nat) ^ 21)" using assms by (simp only: of_nat_less_iff)
    then show ?thesis by simp
  qed
  ultimately show ?thesis by (simp add: toFixed_def)
qed

lemma toFixed1_near:
  assumes "0 \<le> x" "x < 10 ^ 21" "nat \<lfloor>x * 10 + 1 / 2\<rfloor> = k"
  shows "toFixed E 1 x = showNat (k div 10) @ ''.'' @ showNat (k mod 10)"
proof -
  have big: "\<not> (10::real) ^ 21 \<le> \<bar>x\<bar>" using assms(1,2) by simp
  have n: "nat \<lfloor>\<bar>x\<bar> * 10 ^ 1 + 1 / 2\<rfloor> = k" using assms(1,3) by simp
  have last: "showNat (k mod 10) = [digitChar (k mod 10)]"
    by (subst showNat.simps) simp
  have split: "(let z = (if length (showNat k) \<le> 1
                        then replicate (1 + 1 - length (showNat k)) CHR ''0'' @ showNat k
                        else showNat k);
                    l = length z
                in take (l - 1) z @ ''.'' @ drop (l - 1) z) =
               showNat (k div 10) @ ''.'' @ showNat (k mod 10)"
  proof (cases "k < 10")
    case True
    then have "showNat k = [digitChar k]" by (subst showNat.simps) simp
    moreover have "showNat (k div 10) = ''0''"
      using True by (subst showNat.simps) (simp add: digitChar_def char_of_eq_iff)
    ultimately show ?thesis using True by (simp add: last)
  next
    case False
    then have s: "showNat k = showNat (k div 10) @ [digitChar (k mod 10)]"
      by (subst showNat.simps) simp
    have "length (showNat (k div 10)) \<noteq> 0" using showNat_nonempty by simp
    then show ?thesis by (simp add: s last)
  qed
  have neg: "\<not> x < 0" using assms(1) by simp
  show ?thesis
    unfolding toFixed_def n using big split neg by (simp add: Let_def)
qed

lemma fl_zero: "fl 0 = 0"
  by (simp add: fl_def)

lemma fl_of_nat: "n < 2 ^ 53 \<Longrightarrow> fl (real n) = real n"
  using fl_of_int [of "int n"] by simp

lemma fl_tenth_err:
  assumes "k \<le> 100"
  shows "\<bar>fl (real k / 10) - real k / 10\<bar> \<le> 1 / 2 ^ 49"
proof (cases "k = 0")
  case True
  then show ?thesis by (simp add: fl_zero)
next
  case False
  have "pow2 (- 1022) \<le> 1 / 10" by (simp add: pow2_def)
  also have "\<dots> \<le> \<bar>real k / 10\<bar>" using False by simp
  finally have "\<bar>fl (real k / 10) - real k / 10\<bar> \<le> \<bar>real k / 10\<bar> / 2 ^ 53"
    by (rule fl_err)
  also have "\<dots> \<le> 10 / 2 ^ 53" using assms by simp
  also have "\<dots> \<le> 1 / 2 ^ 49" by simp
  finally show ?thesis .
qed

lemma tenth_label:
  assumes "k \<le> 100"
  shows "(if fmod1 (fl (real k / 10)) = 0 then toFixed E 0 (fl (real k / 10))
          else toFixed E 1 (fl (real k / 10))) =
         (if k mod 10 = 0 then showNat (k div 10)
          else showNat (k div 10) @ ''.'' @ showNat (k mod 10))"
proof (cases "k mod 10 = 0")
  case True
  then have "k = k div 10 * 10" by presburger
  then have "real k = real (k div 10) * 10" by (metis of_nat_mult of_nat_numeral)
  then have w: "real k / 10 = real (k div 10)" by simp
  have "k div 10 < 2 ^ 53" using assms by simp
  then have x: "fl (real k / 10) = real (k div 10)" unfolding w by (rule fl_of_nat)
  have "k div 10 < 10 ^ 21" using assms by simp
  then have "toFixed E 0 (real (k div 10)) = showNat (k div 10)" by (rule toFixed0_whole)
  moreover have "fmod1 (real (k div 10)) = 0" by (simp add: fmod1_def)
  ultimately show ?thesis using True by (simp add: x)
next
  case False
  define x where "x = fl (real k / 10)"
  define j where "j = k div 10"
  define d where "d = k mod 10"
  have d: "1 \<le> d" "d \<le> 9" using False by (simp_all add: d_def)
  have "k = j * 10 + d" by (simp add: j_def d_def)
  then have "real k = real j * 10 + real d" by (metis of_nat_add of_nat_mult of_nat_numeral)
  then have t: "real k / 10 = real j + real d / 10" by simp
  have e: "\<bar>x - real k / 10\<bar> \<le> 1 / 2 ^ 49" unfolding x_def using assms by (rule fl_tenth_err)
  have c: "(1::real) / 2 ^ 49 < 1 / 100" by simp
  have dl: "1 / 10 \<le> real d / 10" "real d / 10 \<le> 9 / 10" using d by simp_all
  have lo: "real j < x" "x < real j + 1" using e c t dl by linarith+
  then have f: "\<lfloor>x\<rfloor> = int j" by linarith
  have x0: "0 \<le> x" using lo by linarith
  have m: "fmod1 x \<noteq> 0" unfolding fmod1_def f using x0 lo by simp
  have "real k - 1 / 4 < x * 10" "x * 10 < real k + 1 / 4" using e c by linarith+
  then have "\<lfloor>x * 10 + 1 / 2\<rfloor> = int k" by linarith
  then have n: "nat \<lfloor>x * 10 + 1 / 2\<rfloor> = k" by simp
  have "x < 101" using lo t dl assms by linarith
  then have xb: "x < 10 ^ 21" by simp
  have "toFixed E 1 x = showNat (k div 10) @ ''.'' @ showNat (k mod 10)"
    using x0 xb n by (rule toFixed1_near)
  then show ?thesis using False m unfolding x_def by simp
qed

lemma formatBubble_small:
  assumes "fl (v / 1000000) < 10" "\<lceil>fl (fl (v / 1000000) * 10)\<rceil> = int k" "k \<le> 100"
  shows "formatBubble E v =
     (if k mod 10 = 0 then showNat (k div 10)
      else showNat (k div 10) @ ''.'' @ showNat (k mod 10)) @ ''M''"
proof -
  have "formatBubble E v =
        (if fmod1 (fl (real_of_int (int k) / 10)) = 0
         then toFixed E 0 (fl (real_of_int (int k) / 10))
         else toFixed E 1 (fl (real_of_int (int k) / 10))) @ ''M''"
    unfolding formatBubble_def Let_def assms(2) using assms(1) by (simp only: if_True)
  then have "formatBubble E v =
        (if fmod1 (fl (real k / 10)) = 0 then toFixed E 0 (fl (real k / 10))
         else toFixed E 1 (fl (real k / 10))) @ ''M''"
    by (simp only: of_int_of_nat_eq)
  then show ?thesis by (simp only: tenth_label [OF assms(3)])
qed

lemma formatBubble_large:
  assumes "10 \<le> fl (v / 1000000)"
  shows "formatBubble E v = Number_toString E \<lceil>fl (v / 1000000)\<rceil> @ ''M''"
  using assms by (simp add: formatBubble_def Let_def)

lemma Number_toString_digits:
  assumes "0 \<le> n" "n < 10 ^ 21"
  shows "Number_toString E n = showNat (nat n)"
  using assms by (simp add: Number_toString_def)

lemma ceiling_stable:
  assumes "\<bar>r - y\<bar> < offWhole y"
  shows "\<lceil>r\<rceil> = \<lceil>y\<rceil>"
proof -
  have a: "offWhole y \<le> \<bar>y - real_of_int \<lfloor>y\<rfloor>\<bar>" "offWhole y \<le> \<bar>y - real_of_int (\<lfloor>y\<rfloor> + 1)\<bar>"
    unfolding offWhole_def by (rule round_diff_minimal)+
  have b: "real_of_int \<lfloor>y\<rfloor> \<le> y" "y < real_of_int (\<lfloor>y\<rfloor> + 1)" by linarith+
  have p: "0 < offWhole y" using assms by linarith
  have r: "real_of_int \<lfloor>y\<rfloor> < r" "r < real_of_int (\<lfloor>y\<rfloor> + 1)" using assms a b by linarith+
  have y: "real_of_int \<lfloor>y\<rfloor> < y" using a(1) b(1) p by linarith
  have "\<lceil>r\<rceil> = \<lfloor>y\<rfloor> + 1" using r by (simp add: ceiling_eq_iff)
  moreover have "\<lceil>y\<rceil> = \<lfloor>y\<rfloor> + 1" using y b(2) by (simp add: ceiling_eq_iff)
  ultimately show ?thesis by simp
qed

lemma offWhole_zero:
  assumes "offWhole y = 0"
  shows "y = real_of_int (round y)"
  using assms by (simp add: offWhole_def)

lemma offWhole_le: "offWhole y \<le> \<bar>y - real_of_int n\<bar>"
  unfolding offWhole_def by (rule round_diff_minimal)

lemma fl_err_pos:
  assumes "1 / 2 ^ 1010 \<le> x"
  shows "x - x / 2 ^ 53 \<le> fl x" "fl x \<le> x + x / 2 ^ 53"
proof -
  have "pow2 (- 1022) \<le> 1 / 2 ^ 1010" by (simp add: pow2_def)
  with assms have "pow2 (- 1022) \<le> \<bar>x\<bar>" by linarith
  then have e: "\<bar>fl x - x\<bar> \<le> \<bar>x\<bar> / 2 ^ 53" by (rule fl_err)
  have "(0::real) \<le> 1 / 2 ^ 1010" by simp
  with assms have x0: "0 \<le> x" by linarith
  define t where "t = x / 2 ^ 53"
  have "\<bar>fl x - x\<bar> \<le> t" using e x0 by (simp add: t_def)
  then have "x - t \<le> fl x" "fl x \<le> x + t" by linarith+
  then show "x - x / 2 ^ 53 \<le> fl x" "fl x \<le> x + x / 2 ^ 53" by (simp_all only: t_def)
qed

lemma small_ceiling:
  assumes "0 \<le> v" "v / 1000000 < 10" "clearOf (v / 100000)"
  shows "fl (v / 1000000) < 10"
    and "\<lceil>fl (fl (v / 1000000) * 10)\<rceil> = \<lceil>v / 1000000 * 10\<rceil>"
proof -
  define y where "y = v / 100000"
  define m where "m = v / 1000000"
  have ym: "y = m * 10" by (simp add: y_def m_def)
  have y0: "0 \<le> y" "y < 100" using assms(1,2) by (simp_all add: y_def)
  consider (whole) "offWhole y = 0" | (off) "1 / 2 ^ 1000 \<le> y" "y / 2 ^ 51 < offWhole y"
    using assms(3) y0 unfolding clearOf_def y_def [symmetric] by auto
  then have "fl m < 10 \<and> \<lceil>fl (fl m * 10)\<rceil> = \<lceil>m * 10\<rceil>"
  proof cases
    case whole
    define k where "k = nat (round y)"
    have "y = real_of_int (round y)" using whole by (rule offWhole_zero)
    moreover have "0 \<le> round y" using y0(1) by (simp add: round_def)
    ultimately have yk: "y = real k" by (simp add: k_def)
    have "k < 100" using y0(2) unfolding yk by simp
    then have k: "k \<le> 99" by simp
    have mk: "m = real k / 10" using ym yk by simp
    show ?thesis
    proof (cases "k = 0")
      case True
      then show ?thesis by (simp add: mk fl_zero)
    next
      case False
      then have k1: "1 \<le> k" "k \<le> 1000" "k \<le> 100" using k by simp_all
      have t: "fl (fl (real k / 10) * 10) = real k" using k1(1,2) by (rule fl_tenth_times_ten)
      have e: "\<bar>fl (real k / 10) - real k / 10\<bar> \<le> 1 / 2 ^ 49" using k1(3) by (rule fl_tenth_err)
      have c: "(1::real) / 2 ^ 49 < 1 / 100" by simp
      have "real k / 10 \<le> 99 / 10" using k by simp
      with e c have "fl (real k / 10) < 10" by linarith
      then show ?thesis unfolding mk t by simp
    qed
  next
    case off
    have mpos: "1 / 2 ^ 1010 \<le> m"
    proof -
      have "(1::real) / 2 ^ 1010 \<le> 1 / 2 ^ 1000 / 10" by simp
      also have "\<dots> \<le> y / 10" using off(1) by simp
      finally show ?thesis by (simp add: ym)
    qed
    define a where "a = fl m"
    have a: "m - m / 2 ^ 53 \<le> a" "a \<le> m + m / 2 ^ 53"
      unfolding a_def using mpos by (rule fl_err_pos)+
    have "(0::real) < 1 / 2 ^ 1010" by simp
    with mpos have m0: "0 < m" by linarith
    have apos: "1 / 2 ^ 1010 \<le> a * 10"
    proof -
      have "m / 2 \<le> m - m / 2 ^ 53" using m0 by simp
      then have "m \<le> a * 10" using a(1) m0 by linarith
      with mpos show ?thesis by linarith
    qed
    define b where "b = fl (a * 10)"
    have b: "a * 10 - a * 10 / 2 ^ 53 \<le> b" "b \<le> a * 10 + a * 10 / 2 ^ 53"
      unfolding b_def using apos by (rule fl_err_pos)+
    have c: "(1::real) / 2 ^ 53 = 1 / 9007199254740992" "(1::real) / 2 ^ 51 = 1 / 2251799813685248"
      by simp_all
    have a': "m - m * (1 / 2 ^ 53) \<le> a" "a \<le> m + m * (1 / 2 ^ 53)" using a by simp_all
    have b': "a * 10 - a * 10 * (1 / 2 ^ 53) \<le> b" "b \<le> a * 10 + a * 10 * (1 / 2 ^ 53)"
      using b by simp_all
    have "\<bar>b - y\<bar> < y * (1 / 2 ^ 51)"
      using a' b' m0 unfolding ym c by linarith
    then have "\<bar>b - y\<bar> < offWhole y" using off(2) by simp
    then have ce: "\<lceil>b\<rceil> = \<lceil>y\<rceil>" by (rule ceiling_stable)
    have "offWhole y \<le> \<bar>y - real_of_int 100\<bar>" by (rule offWhole_le)
    then have "y * (1 / 2 ^ 51) < 100 - y" using off(2) y0(2) by simp
    then have "a < 10" using a'(2) m0 unfolding ym c by linarith
    then show ?thesis using ce by (simp add: a_def b_def ym)
  qed
  then show "fl (v / 1000000) < 10"
    and "\<lceil>fl (fl (v / 1000000) * 10)\<rceil> = \<lceil>v / 1000000 * 10\<rceil>"
    by (simp_all add: m_def)
qed

lemma large_ceiling:
  assumes "10 \<le> v / 1000000" "clearOf (v / 1000000)"
  shows "10 \<le> fl (v / 1000000)"
    and "\<lceil>fl (v / 1000000)\<rceil> = \<lceil>v / 1000000\<rceil>"
    and "v / 1000000 < 2 ^ 53"
proof -
  define m where "m = v / 1000000"
  have m10: "10 \<le> m" using assms(1) by (simp add: m_def)
  consider (whole) "offWhole m = 0" "m < 2 ^ 53" | (off) "m / 2 ^ 51 < offWhole m"
    using assms(2) m10 unfolding clearOf_def m_def [symmetric] by auto
  then have "10 \<le> fl m \<and> \<lceil>fl m\<rceil> = \<lceil>m\<rceil> \<and> m < 2 ^ 53"
  proof cases
    case whole
    define n where "n = round m"
    have mn: "m = real_of_int n" unfolding n_def using whole(1) by (rule offWhole_zero)
    have "real_of_int n < real_of_int (2 ^ 53)" using whole(2) unfolding mn by simp
    then have "n < 2 ^ 53" by (simp only: of_int_less_iff)
    moreover have "0 \<le> n" using m10 unfolding mn by linarith
    ultimately have "\<bar>n\<bar> < 2 ^ 53" by simp
    then have "fl (real_of_int n) = real_of_int n" by (rule fl_of_int)
    then show ?thesis using m10 whole(2) unfolding mn by simp
  next
    case off
    have mpos: "1 / 2 ^ 1010 \<le> m"
    proof -
      have "(1::real) / 2 ^ 1010 \<le> 1" by simp
      with m10 show ?thesis by linarith
    qed
    define a where "a = fl m"
    have a: "m - m / 2 ^ 53 \<le> a" "a \<le> m + m / 2 ^ 53"
      unfolding a_def using mpos by (rule fl_err_pos)+
    have c: "(1::real) / 2 ^ 53 = 1 / 9007199254740992" "(1::real) / 2 ^ 51 = 1 / 2251799813685248"
      by simp_all
    have a': "m - m * (1 / 2 ^ 53) \<le> a" "a \<le> m + m * (1 / 2 ^ 53)" using a by simp_all
    have o: "m * (1 / 2 ^ 51) < offWhole m" using off by simp
    have "\<bar>a - m\<bar> < m * (1 / 2 ^ 51)" using a' m10 unfolding c by linarith
    then have "\<bar>a - m\<bar> < offWhole m" using o by linarith
    then have ce: "\<lceil>a\<rceil> = \<lceil>m\<rceil>" by (rule ceiling_stable)
    have "offWhole m \<le> \<bar>m - real_of_int 10\<bar>" by (rule offWhole_le)
    then have "m * (1 / 2 ^ 51) < m - 10" using o m10 by simp
    then have a10: "10 \<le> a" using a'(1) m10 unfolding c by linarith
    have "offWhole m \<le> \<bar>m - real_of_int \<lfloor>m\<rfloor>\<bar>" by (rule offWhole_le)
    moreover have "real_of_int \<lfloor>m\<rfloor> \<le> m" "m < real_of_int \<lfloor>m\<rfloor> + 1" by linarith+
    ultimately have "offWhole m < 1" by linarith
    then have "m * (1 / 2 ^ 51) < 1" using o by linarith
    then have "m < 2 ^ 51" by (simp add: field_simps)
    moreover have "(2::real) ^ 51 < 2 ^ 53" by simp
    ultimately have "m < 2 ^ 53" by linarith
    then show ?thesis using ce a10 by (simp add: a_def)
  qed
  then show "10 \<le> fl (v / 1000000)"
    and "\<lceil>fl (v / 1000000)\<rceil> = \<lceil>v / 1000000\<rceil>"
    and "v / 1000000 < 2 ^ 53"
    by (simp_all add: m_def)
qed

lemma offWhole_ratio:
  assumes "0 < d"
  shows "offWhole (real_of_int n / real_of_int d) = 0
         \<or> 1 / real_of_int d \<le> offWhole (real_of_int n / real_of_int d)"
proof -
  define r where "r = round (real_of_int n / real_of_int d)"
  define z where "z = n - r * d"
  have dp: "0 < real_of_int d" using assms by simp
  have e: "real_of_int n / real_of_int d - real_of_int r = real_of_int z / real_of_int d"
    using dp by (simp add: z_def field_simps)
  have o: "offWhole (real_of_int n / real_of_int d) = \<bar>real_of_int z\<bar> / real_of_int d"
    unfolding offWhole_def r_def [symmetric] e using dp by simp
  show ?thesis
  proof (cases "z = 0")
    case True
    then show ?thesis by (simp add: o)
  next
    case False
    then have "1 \<le> \<bar>z\<bar>" by linarith
    then have "1 \<le> \<bar>real_of_int z\<bar>" by linarith
    then have "1 / real_of_int d \<le> \<bar>real_of_int z\<bar> / real_of_int d"
      using dp by (intro divide_right_mono) simp_all
    then show ?thesis by (simp add: o)
  qed
qed

lemma whole_clear:
  assumes "0 \<le> n" "n < 10 ^ 15"
  shows "clearOf (real_of_int n / 100000)" "clearOf (real_of_int n / 1000000)"
proof -
  have nb: "real_of_int n < 10 ^ 15" "0 \<le> real_of_int n"
  proof -
    have "real_of_int n < real_of_int (10 ^ 15)" using assms(2) by (simp only: of_int_less_iff)
    then show "real_of_int n < 10 ^ 15" by simp
    show "0 \<le> real_of_int n" using assms(1) by simp
  qed
  have c: "(10::real) ^ 15 / 100000 < 2 ^ 53" "(10::real) ^ 15 / 1000000 < 2 ^ 53" by simp_all
  have sm: "real_of_int n / 100000 / 2 ^ 51 < 1 / 100000"
           "real_of_int n / 1000000 / 2 ^ 51 < 1 / 1000000"
    using nb by simp_all
  show "clearOf (real_of_int n / 100000)"
  proof (cases "n = 0")
    case True
    then show ?thesis by (simp add: clearOf_def offWhole_def)
  next
    case False
    then have "1 \<le> n" using assms(1) by simp
    then have n1: "1 \<le> real_of_int n" by simp
    have low: "1 / 2 ^ 1000 \<le> \<bar>real_of_int n / 100000\<bar>"
    proof -
      have "(1::real) / 2 ^ 1000 \<le> 1 / 100000" by simp
      also have "\<dots> \<le> real_of_int n / 100000" using n1 by simp
      finally show ?thesis by simp
    qed
    have b: "\<bar>real_of_int n / 100000\<bar> < 2 ^ 53" using nb c by simp
    from offWhole_ratio [of 100000 n] sm(1) low b nb show ?thesis
      unfolding clearOf_def by auto
  qed
  show "clearOf (real_of_int n / 1000000)"
  proof (cases "n = 0")
    case True
    then show ?thesis by (simp add: clearOf_def offWhole_def)
  next
    case False
    then have "1 \<le> n" using assms(1) by simp
    then have n1: "1 \<le> real_of_int n" by simp
    have low: "1 / 2 ^ 1000 \<le> \<bar>real_of_int n / 1000000\<bar>"
    proof -
      have "(1::real) / 2 ^ 1000 \<le> 1 / 1000000" by simp
      also have "\<dots> \<le> real_of_int n / 1000000" using n1 by simp
      finally show ?thesis by simp
    qed
    have b: "\<bar>real_of_int n / 1000000\<bar> < 2 ^ 53" using nb c by simp
    from offWhole_ratio [of 1000000 n] sm(2) low b nb show ?thesis
      unfolding clearOf_def by auto
  qed
qed

lemma formatBubble_clear_small:
  assumes "0 \<le> v" "v / 1000000 < 10" "clearOf (v / 100000)"
  shows "formatBubble E v =
     (if nat \<lceil>v / 1000000 * 10\<rceil> mod 10 = 0 then showNat (nat \<lceil>v / 1000000 * 10\<rceil> div 10)
      else showNat (nat \<lceil>v / 1000000 * 10\<rceil> div 10) @ ''.''
           @ showNat (nat \<lceil>v / 1000000 * 10\<rceil> mod 10)) @ ''M''"
proof -
  define c where "c = \<lceil>v / 1000000 * 10\<rceil>"
  have c0: "0 \<le> c" unfolding c_def using assms(1) by (simp add: le_ceiling_iff)
  have "v / 1000000 * 10 \<le> 100" using assms(2) by simp
  then have c100: "c \<le> 100" unfolding c_def by (simp add: ceiling_le_iff)
  have k: "nat c \<le> 100" using c100 by simp
  have lt: "fl (v / 1000000) < 10" using assms by (rule small_ceiling(1))
  have "\<lceil>fl (fl (v / 1000000) * 10)\<rceil> = c" unfolding c_def using assms by (rule small_ceiling(2))
  then have ce: "\<lceil>fl (fl (v / 1000000) * 10)\<rceil> = int (nat c)" using c0 by simp
  show ?thesis unfolding c_def [symmetric] using lt ce k by (rule formatBubble_small)
qed

lemma formatBubble_clear_large:
  assumes "10 \<le> v / 1000000" "clearOf (v / 1000000)"
  shows "formatBubble E v = showNat (nat \<lceil>v / 1000000\<rceil>) @ ''M''"
proof -
  define n where "n = \<lceil>v / 1000000\<rceil>"
  have ge: "10 \<le> fl (v / 1000000)" using assms by (rule large_ceiling(1))
  have ce: "\<lceil>fl (v / 1000000)\<rceil> = n" unfolding n_def using assms by (rule large_ceiling(2))
  have "v / 1000000 < 2 ^ 53" using assms by (rule large_ceiling(3))
  then have "v / 1000000 \<le> real_of_int (2 ^ 53)" by simp
  then have "n \<le> 2 ^ 53" unfolding n_def by (simp only: ceiling_le_iff)
  then have n21: "n < 10 ^ 21" by simp
  have "v / 1000000 \<le> real_of_int n" unfolding n_def by linarith
  then have n0: "0 \<le> n" using assms(1) by linarith
  have "formatBubble E v = Number_toString E n @ ''M''"
    using formatBubble_large [OF ge, of E] by (simp only: ce)
  then show ?thesis unfolding n_def [symmetric] using Number_toString_digits [OF n0 n21, of E] by simp
qed

lemmas digit_eval = showNat_digit showNat_step digitChar_def char_of_eq_iff

section \<open>The claims about the row parser\<close>

text \<open>
  C3 (parseDayIndex): \<open>parseDay\<close> floors a finite number, gives the whole number a string
  starts with (0 when it starts with none, or with one beyond the double range), and 0
  for a value of any other type. The claim also says that a number input whose floor is
  not finite gives 0. There the code differs: the number branch returns
  \<^verbatim>\<open>Math.floor(v)\<close> with no finiteness check (the string branch and \<open>toNumber\<close> both have
  one), so that \<^verbatim>\<open>Infinity\<close>, \<^verbatim>\<open>-Infinity\<close> and \<^verbatim>\<open>NaN\<close> come back unchanged.
\<close>

theorem parseDay_nonfinite_number:
  "parseDay (JNum PosInf) = PosInf \<and> parseDay (JNum NegInf) = NegInf
   \<and> parseDay (JNum NaN) = NaN
   \<and> \<not> isFinite (parseDay (JNum PosInf)) \<and> \<not> isFinite (parseDay (JNum NaN))
   \<and> (\<forall>r. parseDay (JNum (Fin r)) = Fin (real_of_int \<lfloor>r\<rfloor>))
   \<and> (\<forall>s. parseDay (JStr s) = (if isFinite (parseInt10 s) then parseInt10 s else Fin 0))
   \<and> (\<forall>s. isFinite (parseDay (JStr s)))
   \<and> parseDay (JStr ''12'') = Fin 12 \<and> parseDay (JStr ''abc'') = Fin 0
   \<and> parseDay (JBool True) = Fin 0 \<and> parseDay JNull = Fin 0
   \<and> parseDay JUndefined = Fin 0 \<and> parseDay JObject = Fin 0
   \<and> toNumber (JNum PosInf) = Fin 0 \<and> toNumber (JNum NaN) = Fin 0"
proof -
  have s: "parseDay (JStr s) = (if isFinite (parseInt10 s) then parseInt10 s else Fin 0)" for s
    by (simp add: parseDay_def Let_def)
  have f: "isFinite (parseDay (JStr s))" for s
    by (simp add: s)
  have e: "parseDay (JStr ''12'') = Fin 12" "parseDay (JStr ''abc'') = Fin 0"
    by (simp_all add: parseDay_def js_eval)
  show ?thesis
    using s f e by (simp add: parseDay_def toNumber_def)
qed

text \<open>
  C7 (parseAmount): \<open>toNumber\<close> gives 0 for a non-finite number and keeps a finite one;
  a string is trimmed and lower-cased, the four sentinels give 0 (also in any letter case
  and with surrounding white space), any other string gives its numeric parse, or 0 when
  that is not finite; any other value gives 0. The result is always a finite number: the
  function is total.
\<close>

theorem toNumber_cases:
  "(\<forall>n. toNumber (JNum n) = (if isFinite n then n else Fin 0))
   \<and> (\<forall>s. toLowerCase (trim s) \<in> {[], ''nan'', ''null'', ''undefined''}
          \<longrightarrow> toNumber (JStr s) = Fin 0)
   \<and> (\<forall>l w r. list_all isWhiteSpace l \<and> list_all isWhiteSpace r
          \<and> toLowerCase w \<in> {[], ''nan'', ''null'', ''undefined''}
          \<longrightarrow> toNumber (JStr (l @ w @ r)) = Fin 0)
   \<and> (\<forall>s. toLowerCase (trim s) \<notin> {[], ''nan'', ''null'', ''undefined''}
          \<longrightarrow> toNumber (JStr s) =
              (if isFinite (Number_of_string (toLowerCase (trim s)))
               then Number_of_string (toLowerCase (trim s)) else Fin 0))
   \<and> (\<forall>v. (\<forall>n. v \<noteq> JNum n) \<and> (\<forall>s. v \<noteq> JStr s) \<longrightarrow> toNumber v = Fin 0)
   \<and> (\<forall>v. isFinite (toNumber v))"
proof (intro conjI allI impI)
  fix n show "toNumber (JNum n) = (if isFinite n then n else Fin 0)"
    by (simp add: toNumber_def)
next
  fix s assume "toLowerCase (trim s) \<in> {[], ''nan'', ''null'', ''undefined''}"
  then show "toNumber (JStr s) = Fin 0" by (rule toNumber_sentinel)
next
  fix l w r
  assume "list_all isWhiteSpace l \<and> list_all isWhiteSpace r
          \<and> toLowerCase w \<in> {[], ''nan'', ''null'', ''undefined''}"
  then show "toNumber (JStr (l @ w @ r)) = Fin 0"
    using toNumber_padded_sentinel by blast
next
  fix s assume "toLowerCase (trim s) \<notin> {[], ''nan'', ''null'', ''undefined''}"
  then show "toNumber (JStr s) =
              (if isFinite (Number_of_string (toLowerCase (trim s)))
               then Number_of_string (toLowerCase (trim s)) else Fin 0)"
    by (simp add: toNumber_def Let_def)
next
  fix v assume "(\<forall>n. v \<noteq> JNum n) \<and> (\<forall>s. v \<noteq> JStr s)"
  then show "toNumber v = Fin 0" by (cases v) (simp_all add: toNumber_def)
next
  fix v show "isFinite (toNumber v)" by (rule toNumber_finite)
qed

theorem toNumber_cases_witness:
  "toNumber (JNum NaN) = Fin 0 \<and> toNumber (JNum (Fin (5 / 2))) = Fin (5 / 2)
   \<and> toNumber (JStr '' Undefined'') = Fin 0
   \<and> toNumber (JStr ([CHR 0x09, CHR '' ''] @ ''NaN'' @ '' '')) = Fin 0
   \<and> toNumber (JStr '' 12.5'') = Fin (25 / 2)
   \<and> toNumber (JStr ''12abc'') = Fin 0
   \<and> toNumber (JStr ''1e999'') = Fin 0
   \<and> toNumber JNull = Fin 0 \<and> isFinite (toNumber (JStr ''-3''))"
proof -
  have n: "toNumber (JNum n) = (if isFinite n then n else Fin 0)" for n
    using toNumber_cases by blast
  have s: "toLowerCase (trim s) \<in> {[], ''nan'', ''null'', ''undefined''}
          \<Longrightarrow> toNumber (JStr s) = Fin 0" for s
    using toNumber_cases by blast
  have p: "list_all isWhiteSpace l \<and> list_all isWhiteSpace r
          \<and> toLowerCase w \<in> {[], ''nan'', ''null'', ''undefined''}
          \<Longrightarrow> toNumber (JStr (l @ w @ r)) = Fin 0" for l w r
    using toNumber_cases by blast
  have o: "toLowerCase (trim s) \<notin> {[], ''nan'', ''null'', ''undefined''}
          \<Longrightarrow> toNumber (JStr s) =
              (if isFinite (Number_of_string (toLowerCase (trim s)))
               then Number_of_string (toLowerCase (trim s)) else Fin 0)" for s
    using toNumber_cases by blast
  have v: "(\<forall>n. v \<noteq> JNum n) \<and> (\<forall>s. v \<noteq> JStr s) \<Longrightarrow> toNumber v = Fin 0" for v
    using toNumber_cases by blast
  have f: "isFinite (toNumber v)" for v
    using toNumber_cases by blast
  have 1: "toNumber (JNum NaN) = Fin 0" by (simp add: n)
  have 2: "toNumber (JNum (Fin (5 / 2))) = Fin (5 / 2)" by (simp add: n)
  have 3: "toNumber (JStr '' Undefined'') = Fin 0"
    by (rule s) (simp add: js_eval)
  have 4: "toNumber (JStr ([CHR 0x09, CHR '' ''] @ ''NaN'' @ '' '')) = Fin 0"
    by (rule p) (simp add: js_eval)
  have 5: "toNumber (JStr '' 12.5'') = Fin (25 / 2)"
    by (subst o) (simp_all add: js_eval)
  have 6: "toNumber (JStr ''12abc'') = Fin 0"
    by (subst o) (simp_all add: js_eval)
  have 7: "toNumber (JStr ''1e999'') = Fin 0"
    by (subst o) (simp_all add: js_eval Number_1e999 del: Number_of_string_def)
  have 8: "toNumber JNull = Fin 0" by (rule v) simp
  show ?thesis using 1 2 3 4 5 6 7 8 f [of "JStr ''-3''"] by blast
qed

section \<open>The claims about the normaliser\<close>

text \<open>
  C5 (empty input): an absent or empty row list gives exactly one point, at 0 with the
  three values 0, and the default metadata 31, 31, 0, 0. The result is an ordinary value.
\<close>

theorem transform_empty:
  "transformApiToNormalizedChart None =
     \<lparr> data = [\<lparr> row_x = 0, row_current = Some 0, row_lastYear = 0, row_record = 0 \<rparr>],
       meta = \<lparr> currentMonthLen = 31, recordMonthLen = 31, todayDay = 0,
                currentProgressX = 0 \<rparr> \<rparr>
   \<and> transformApiToNormalizedChart (Some []) = transformApiToNormalizedChart None
   \<and> length (data (transformApiToNormalizedChart (Some []))) = 1"
  by (simp add: transformApiToNormalizedChart_def emptyResult_def)

text \<open>
  C4 (truncation): for a non-empty row list the progress position of today is
  \<open>round (todayDay / currentMonthLen * 100)\<close>, the points are those of 0..100 in order,
  every point beyond that position has no current value, and every point up to it
  has one.
\<close>

theorem current_truncated:
  assumes "rows \<noteq> []"
  shows "let out = transformApiToNormalizedChart (Some rows);
             cpx = currentProgressX (meta out)
         in cpx = Math_round
                    ((if 0 < currentMonthLen (meta out)
                      then real_of_int (todayDay (meta out))
                           / real_of_int (currentMonthLen (meta out))
                      else 0) * 100)
            \<and> map row_x (data out) = [0..100]
            \<and> (\<forall>pt \<in> set (data out).
                  (cpx < row_x pt \<longrightarrow> row_current pt = None)
                  \<and> (row_x pt \<le> cpx \<longrightarrow> (\<exists>v. row_current pt = Some v)))"
proof -
  have x: "map row_x (data (transformApiToNormalizedChart (Some rows))) = [0..100]"
    unfolding transform_data [OF assms] by (simp add: comp_def chartRowAt_sel del: upto_rec_numeral)
  have p: "(progressOf rows < row_x pt \<longrightarrow> row_current pt = None)
         \<and> (row_x pt \<le> progressOf rows \<longrightarrow> (\<exists>v. row_current pt = Some v))"
    if "pt \<in> set (data (transformApiToNormalizedChart (Some rows)))" for pt
    using that unfolding transform_data [OF assms]
    by (auto simp: chartRowAt_sel simp del: upto_rec_numeral)
  show ?thesis
    using x p by (simp add: Let_def transform_meta [OF assms] progressOf_def)
qed

theorem current_truncated_witness:
  "rows_half \<noteq> []
   \<and> currentProgressX (meta (transformApiToNormalizedChart (Some rows_half))) = 50
   \<and> map row_x (data (transformApiToNormalizedChart (Some rows_half))) = [0..100]
   \<and> row_x (data (transformApiToNormalizedChart (Some rows_half)) ! 51) = 51
   \<and> row_current (data (transformApiToNormalizedChart (Some rows_half)) ! 51) = None
   \<and> row_x (data (transformApiToNormalizedChart (Some rows_half)) ! 50) = 50
   \<and> (\<exists>v. row_current (data (transformApiToNormalizedChart (Some rows_half)) ! 50) = Some v)"
proof -
  let ?out = "transformApiToNormalizedChart (Some rows_half)"
  have ne: "rows_half \<noteq> []" by (simp add: rows_half_def)
  note t = current_truncated [of rows_half, unfolded Let_def, OF ne]
  have cpx: "currentProgressX (meta ?out) = 50"
    by (simp add: transform_meta [OF ne] rows_half_meta)
  have xs: "map row_x (data ?out) = [0..100]" using t by blast
  have mem: "data ?out ! k \<in> set (data ?out)" if "k \<le> 100" for k
    using that data_length [OF ne] by simp
  have x: "row_x (data ?out ! k) = int k" if "k \<le> 100" for k
    using that by (simp add: data_nth [OF ne] chartRowAt_sel)
  from t have b: "\<forall>pt\<in>set (data ?out).
      (currentProgressX (meta ?out) < row_x pt \<longrightarrow> row_current pt = None) \<and>
      (row_x pt \<le> currentProgressX (meta ?out) \<longrightarrow> (\<exists>v. row_current pt = Some v))"
    by blast
  have 51: "row_current (data ?out ! 51) = None"
    using b mem [of 51] x [of 51] cpx by auto
  have 50: "\<exists>v. row_current (data ?out ! 50) = Some v"
    using b mem [of 50] x [of 50] cpx by auto
  show ?thesis using ne cpx xs 51 50 x [of 50] x [of 51] by simp
qed



text \<open>
  C2 (fallback of the length inference): when no row has a present value, the code
  takes \<^verbatim>\<open>Math.max(...days, 31)\<close>: the 31 is an argument of the maximum, not a default
  for an empty list, so that the fallback is at least 31 and the clamp makes it 31
  whatever days are present. For rows whose fields are all the sentinel and whose
  largest day is 15 the inferred length is 31, where the claim says 28.
\<close>

theorem inferLen_fallback_is_31:
  "inferLoop [K_current_month, K_last_year] (sortRows rows_sentinel) = 0
   \<and> inferLoop [K_record_month] (sortRows rows_sentinel) = 0
   \<and> Max (set (positiveDays rows_sentinel)) = 15
   \<and> inferLen [K_current_month, K_last_year] (sortRows rows_sentinel) = 31
   \<and> inferLen [K_record_month] (sortRows rows_sentinel) = 31
   \<and> currentMonthLen (meta (transformApiToNormalizedChart (Some rows_sentinel))) = 31
   \<and> recordMonthLen (meta (transformApiToNormalizedChart (Some rows_sentinel))) = 31"
proof -
  have ne: "rows_sentinel \<noteq> []" by (simp add: rows_sentinel_def)
  have s: "sortRows rows_sentinel = rows_sentinel"
    by (simp add: rows_sentinel_def sortRows_def norm_eval)
  have 1: "inferLoop [K_current_month, K_last_year] (sortRows rows_sentinel) = 0"
    unfolding s by (simp add: rows_sentinel_def norm_eval)
  have 2: "inferLoop [K_record_month] (sortRows rows_sentinel) = 0"
    unfolding s by (simp add: rows_sentinel_def norm_eval)
  have 3: "Max (set (positiveDays rows_sentinel)) = 15"
    by (simp add: rows_sentinel_def positiveDays_def norm_eval)
  have 4: "inferLen [K_current_month, K_last_year] (sortRows rows_sentinel) = 31"
    unfolding s by (simp add: rows_sentinel_def norm_eval)
  have 5: "inferLen [K_record_month] (sortRows rows_sentinel) = 31"
    unfolding s by (simp add: rows_sentinel_def norm_eval)
  show ?thesis
    using 1 2 3 4 5 by (simp add: transform_meta [OF ne] curLenOf_def recLenOf_def)
qed

text \<open>
  C6 (today-inference and length-inference), as amended: for a non-empty row list
  \<open>todayDay\<close> is the largest day index d > 0 whose current-month amount, trimmed and
  lower-cased, is not \<^verbatim>\<open>nan\<close> (when there is none: the largest day index d > 0 of
  any row, or 0), clamped to at most \<open>currentMonthLen\<close>. For rows of the days 1 to 29 whose
  current-month amount is \<^verbatim>\<open>100\<close> on the days 1 to 28 and \<^verbatim>\<open>nan\<close> on day 29,
  \<open>todayDay\<close> is 28, and \<open>currentMonthLen\<close> is 29 when a row of day 29 has a present
  last-year value, 28 otherwise.
\<close>

theorem today_index_clamped:
  assumes "rows \<noteq> []"
  shows "let out = transformApiToNormalizedChart (Some rows);
             len = currentMonthLen (meta out)
         in todayDay (meta out) =
              min (if realDays rows \<noteq> [] then Max (set (realDays rows))
                   else Max (set (0 # positiveDays rows))) len
            \<and> (rowDay ` set rows = {1..29}
                \<and> (\<forall>r \<in> set rows. current_month_total_amount_released r =
                       Some (if rowDay r = 29 then ''nan'' else ''100''))
               \<longrightarrow> todayDay (meta out) = 28
                   \<and> len = (if \<exists>r \<in> set rows. rowDay r = 29
                                 \<and> isPresent (rawOf (last_year_current_month_total_amount_released r))
                            then 29 else 28))"
proof -
  have gen: "todayOf rows =
      min (if realDays rows \<noteq> [] then Max (set (realDays rows))
           else Max (set (0 # positiveDays rows))) (curLenOf rows)"
    by (simp only: todayOf_def inferTodayDay_eq)
  have scen: "todayOf rows = 28 \<and>
      curLenOf rows = (if \<exists>r \<in> set rows. rowDay r = 29
                            \<and> isPresent (rawOf (last_year_current_month_total_amount_released r))
                       then 29 else 28)"
    if days: "rowDay ` set rows = {1..29}"
      and cur: "\<forall>r \<in> set rows. current_month_total_amount_released r =
                       Some (if rowDay r = 29 then ''nan'' else ''100'')"
  proof -
    have rng: "1 \<le> rowDay r \<and> rowDay r \<le> 29" if "r \<in> set rows" for r
      using that days by (metis atLeastAtMost_iff imageI)
    have real: "set (realDays rows) = {1..28}"
    proof (intro set_eqI iffI)
      fix d assume "d \<in> set (realDays rows)"
      then obtain r where r: "r \<in> set rows" "rowDay r = d"
        "rawOf (current_month_total_amount_released r) \<noteq> ''nan''"
        by (auto simp: realDays_def)
      with cur have "d \<noteq> 29" by (auto simp: rawOf_literals)
      with rng [OF r(1)] r(2) show "d \<in> {1..28}" by auto
    next
      fix d :: int assume d: "d \<in> {1..28}"
      then have "d \<in> rowDay ` set rows" using days by auto
      then obtain r where r: "r \<in> set rows" "rowDay r = d" by auto
      with cur d have "rawOf (current_month_total_amount_released r) = ''100''"
        by (auto simp: rawOf_literals)
      with r d show "d \<in> set (realDays rows)" by (force simp: realDays_def)
    qed
    then have ne: "realDays rows \<noteq> []" by auto
    have "Max (set (realDays rows)) = 28" unfolding real by (rule Max_eqI) auto
    with ne have t0: "inferTodayDay (sortRows rows) = 28" by (simp add: inferTodayDay_eq)
    let ?keys = "[K_current_month, K_last_year]"
    let ?P = "set (presentDays ?keys rows)"
    have lo: "{1..28} \<subseteq> ?P"
    proof
      fix d :: int assume d: "d \<in> {1..28}"
      then have "d \<in> rowDay ` set rows" using days by auto
      then obtain r where r: "r \<in> set rows" "rowDay r = d" by auto
      with cur d have "rawOf (current_month_total_amount_released r) = ''100''"
        by (auto simp: rawOf_literals)
      then have "isPresent (rawOf (field r K_current_month))" by (simp add: isPresent_def)
      with r d show "d \<in> ?P" by (force simp: presentDays_def)
    qed
    have hi: "?P \<subseteq> {1..29}" using rng by (auto simp: presentDays_def)
    have m: "Max ?P = (if 29 \<in> ?P then 29 else 28)"
      by (rule Max_range_with [OF _ lo hi]) simp
    have ne2: "?P \<noteq> {}" using lo by auto
    have pos2: "\<forall>d\<in>?P. 0 < d" using hi by auto
    have l: "inferLoop ?keys (sortRows rows) = Max ?P"
      using Max_insert0_pos(1) [OF _ ne2 pos2] by (simp add: inferLoop_eq set_presentDays_sort)
    have "29 \<in> ?P \<longleftrightarrow> (\<exists>r \<in> set rows. rowDay r = 29
                \<and> isPresent (rawOf (last_year_current_month_total_amount_released r)))"
      using cur by (auto simp: presentDays_def rawOf_literals isPresent_def)
    with m l have len: "curLenOf rows = (if \<exists>r \<in> set rows. rowDay r = 29
                            \<and> isPresent (rawOf (last_year_current_month_total_amount_released r))
                       then 29 else 28)"
      by (simp add: curLenOf_def inferLen_def Let_def)
    with t0 show ?thesis by (simp add: todayOf_def)
  qed
  have m: "todayDay (meta (transformApiToNormalizedChart (Some rows))) = todayOf rows"
    "currentMonthLen (meta (transformApiToNormalizedChart (Some rows))) = curLenOf rows"
    by (simp_all add: transform_meta [OF assms])
  show ?thesis
    unfolding Let_def m
  proof (intro conjI impI)
    show "todayOf rows =
      min (if realDays rows \<noteq> [] then Max (set (realDays rows))
           else Max (set (0 # positiveDays rows))) (curLenOf rows)"
      by (rule gen)
  next
    assume "rowDay ` set rows = {1..29}
            \<and> (\<forall>r \<in> set rows. current_month_total_amount_released r =
                   Some (if rowDay r = 29 then ''nan'' else ''100''))"
    then show "todayOf rows = 28" using scen by blast
  next
    assume "rowDay ` set rows = {1..29}
            \<and> (\<forall>r \<in> set rows. current_month_total_amount_released r =
                   Some (if rowDay r = 29 then ''nan'' else ''100''))"
    then show "curLenOf rows = (if \<exists>r \<in> set rows. rowDay r = 29
                            \<and> isPresent (rawOf (last_year_current_month_total_amount_released r))
                       then 29 else 28)" using scen by blast
  qed
qed

theorem today_index_clamped_witness:
  "rows_scenario \<noteq> [] \<and> rowDay ` set rows_scenario = {1..29}
   \<and> todayDay (meta (transformApiToNormalizedChart (Some rows_scenario))) = 28
   \<and> currentMonthLen (meta (transformApiToNormalizedChart (Some rows_scenario))) = 29"
proof -
  have ne: "rows_scenario \<noteq> []" by (simp add: rows_scenario_def)
  note t = today_index_clamped [of rows_scenario, unfolded Let_def, OF ne]
  from t rows_scenario_image rows_scenario_current
  have "todayDay (meta (transformApiToNormalizedChart (Some rows_scenario))) = 28
     \<and> currentMonthLen (meta (transformApiToNormalizedChart (Some rows_scenario))) =
        (if \<exists>r \<in> set rows_scenario. rowDay r = 29
              \<and> isPresent (rawOf (last_year_current_month_total_amount_released r))
         then 29 else 28)"
    by blast
  with rows_scenario_last ne rows_scenario_image show ?thesis by simp
qed

text \<open>
  The claim C6 as stated, without the clamp, fails on two rows: day 10 with an amount
  and day 31 with an empty current-month amount (which is not \<^verbatim>\<open>nan\<close>) and no present
  last-year value. The largest such day is 31, the inferred length is 28, and
  \<open>todayDay\<close> is 28.
\<close>

theorem today_index_counterexample:
  "Max (set (realDays rows_gap)) = 31
   \<and> todayDay (meta (transformApiToNormalizedChart (Some rows_gap))) = 28"
proof -
  have ne: "rows_gap \<noteq> []" by (simp add: rows_gap_def)
  have 1: "Max (set (realDays rows_gap)) = 31"
    by (simp add: rows_gap_def realDays_def norm_eval)
  have 2: "todayOf rows_gap = 28"
    unfolding todayOf_def curLenOf_def rows_gap_sorted
    by (simp add: rows_gap_def norm_eval)
  show ?thesis using 1 2 by (simp add: transform_meta [OF ne])
qed

text \<open>
  C10 (empty strings), as amended: a row of day d in 1..31 whose current-month amount
  trims to the empty string makes the inferred today, before the clamp to the month
  length, at least d, hence \<open>todayDay\<close> at least the smaller of d and \<open>currentMonthLen\<close>.
  Rows all of whose relevant fields trim to the empty string never raise the candidate
  length: the loop gives the same candidate with and without them, and a step of the loop
  on such a row leaves the candidate as it is.
\<close>

theorem blank_amounts_asymmetry:
  assumes "r \<in> set rows" "1 \<le> rowDay r" "rowDay r \<le> 31"
    and "trim (orEmpty (current_month_total_amount_released r)) = []"
  shows "rowDay r \<le> inferTodayDay (sortRows rows)
     \<and> min (rowDay r) (currentMonthLen (meta (transformApiToNormalizedChart (Some rows))))
         \<le> todayDay (meta (transformApiToNormalizedChart (Some rows)))
     \<and> (\<forall>keys. inferLoop keys (sortRows rows) =
                inferLoop keys (sortRows (filter (\<lambda>b. \<not> allBlank keys b) rows)))
     \<and> (\<forall>keys b xs. allBlank keys b \<longrightarrow> inferLoop keys (xs @ [b]) = inferLoop keys xs)"
proof -
  have ne: "rows \<noteq> []" using assms(1) by auto
  have "rawOf (current_month_total_amount_released r) = []"
    using assms(4) by (simp add: rawOf_def toLowerCase_def)
  then have mem: "rowDay r \<in> set (realDays rows)"
    using assms(1,2) by (force simp: realDays_def)
  then have "realDays rows \<noteq> []" by auto
  then have "inferTodayDay (sortRows rows) = Max (set (realDays rows))"
    by (simp add: inferTodayDay_eq)
  moreover have "rowDay r \<le> Max (set (realDays rows))" using mem by simp
  ultimately have 1: "rowDay r \<le> inferTodayDay (sortRows rows)" by simp
  then have 2: "min (rowDay r) (curLenOf rows) \<le> todayOf rows"
    by (simp add: todayOf_def)
  have 3: "inferLoop keys (sortRows rows) =
           inferLoop keys (sortRows (filter (\<lambda>b. \<not> allBlank keys b) rows))" for keys
    by (simp only: inferLoop_eq list.set set_presentDays_sort presentDays_filter_blank)
  show ?thesis
    using 1 2 3 inferLoop_snoc_blank by (simp add: transform_meta [OF ne])
qed

theorem blank_amounts_asymmetry_witness:
  "mkRow ''30'' '''' ''1'' '' '' \<in> set rows_blank
   \<and> 30 \<le> inferTodayDay (sortRows rows_blank)
   \<and> min 30 (currentMonthLen (meta (transformApiToNormalizedChart (Some rows_blank))))
         \<le> todayDay (meta (transformApiToNormalizedChart (Some rows_blank)))
   \<and> allBlank [K_current_month, K_last_year] (mkRow ''30'' '''' ''1'' '' '')
   \<and> inferLoop [K_current_month, K_last_year] (sortRows rows_blank) =
       inferLoop [K_current_month, K_last_year] (sortRows [mkRow ''5'' ''100'' ''1'' ''1''])"
proof -
  let ?r = "mkRow ''30'' '''' ''1'' '' ''"
  have m: "?r \<in> set rows_blank" by (simp add: rows_blank_def)
  have d: "rowDay ?r = 30" by (simp add: norm_eval)
  have e: "trim (orEmpty (current_month_total_amount_released ?r)) = []"
    by (simp add: norm_eval)
  have b: "allBlank [K_current_month, K_last_year] ?r"
    by (simp add: allBlank_def norm_eval)
  have nb: "\<not> allBlank [K_current_month, K_last_year] (mkRow ''5'' ''100'' ''1'' ''1'')"
    by (simp add: allBlank_def norm_eval)
  have f: "filter (\<lambda>b. \<not> allBlank [K_current_month, K_last_year] b) rows_blank =
           [mkRow ''5'' ''100'' ''1'' ''1'']"
    unfolding rows_blank_def using b nb by simp
  note t = blank_amounts_asymmetry [of ?r rows_blank, OF m, unfolded d f]
  have "30 \<le> inferTodayDay (sortRows rows_blank)
     \<and> min 30 (currentMonthLen (meta (transformApiToNormalizedChart (Some rows_blank))))
         \<le> todayDay (meta (transformApiToNormalizedChart (Some rows_blank)))
     \<and> (\<forall>keys. inferLoop keys (sortRows rows_blank) =
                inferLoop keys (sortRows (filter (\<lambda>b. \<not> allBlank keys b) rows_blank)))
     \<and> (\<forall>keys b xs. allBlank keys b \<longrightarrow> inferLoop keys (xs @ [b]) = inferLoop keys xs)"
    using t e by simp
  then show ?thesis using m b f by metis
qed

text \<open>
  The claim C10 as stated fails on two rows, day 5 with an amount and day 30 with empty
  current-month and last-year fields: the month length is inferred as 28, and \<open>todayDay\<close>
  is clamped to 28, below 30.
\<close>

theorem blank_amounts_counterexample:
  "mkRow ''30'' '''' ''1'' '' '' \<in> set rows_blank
   \<and> rowDay (mkRow ''30'' '''' ''1'' '' '') = 30
   \<and> trim (orEmpty (current_month_total_amount_released (mkRow ''30'' '''' ''1'' '' ''))) = []
   \<and> todayDay (meta (transformApiToNormalizedChart (Some rows_blank))) = 28"
proof -
  have ne: "rows_blank \<noteq> []" by (simp add: rows_blank_def)
  have "todayDay (meta (transformApiToNormalizedChart (Some rows_blank))) = 28"
    by (simp add: transform_meta [OF ne] rows_blank_meta)
  then show ?thesis by (simp add: rows_blank_def norm_eval)
qed

text \<open>
  C1 (monotone series), as amended: for every row list none of whose parsed amounts is
  negative or above \<open>2\<^sup>1\<^sup>0\<^sup>0\<^sup>0\<close>, the last-year and record values and the current values
  that are present are non-negative at every point, non-decreasing from a point to any
  point with a larger or equal \<open>x\<close>, and below the magnitude at which a double becomes an
  infinity. The cap keeps the running totals, of at most 31 amounts each, inside the
  double range. Beyond that range the runtime's total is \<^verbatim>\<open>Infinity\<close> and its
  interpolation between two infinite totals is \<^verbatim>\<open>NaN\<close>, which the exact sums of this
  model do not show: two amounts of \<open>10\<^sup>3\<^sup>0\<^sup>8\<close> are finite doubles and their sum is not
  (\<open>cumulative_leaves_range\<close>).
\<close>

theorem series_monotone:
  assumes "nonnegAmounts rows" "cappedAmounts rows"
  shows "let out = transformApiToNormalizedChart (Some rows)
         in (\<forall>p \<in> set (data out).
               0 \<le> row_lastYear p \<and> 0 \<le> row_record p
               \<and> (\<forall>a. row_current p = Some a \<longrightarrow> 0 \<le> a))
            \<and> (\<forall>p \<in> set (data out). \<forall>q \<in> set (data out).
                 row_x p \<le> row_x q \<longrightarrow>
                   row_lastYear p \<le> row_lastYear q \<and> row_record p \<le> row_record q
                   \<and> (\<forall>a b. row_current p = Some a \<and> row_current q = Some b \<longrightarrow> a \<le> b))
            \<and> (\<forall>p \<in> set (data out).
                 row_lastYear p < dbl_overflow \<and> row_record p < dbl_overflow
                 \<and> (\<forall>a. row_current p = Some a \<longrightarrow> a < dbl_overflow))"
proof (cases "rows = []")
  case True
  then show ?thesis
    by (simp add: transformApiToNormalizedChart_def emptyResult_def zero_finite)
next
  case False
  let ?row = "chartRowAt (cumOf rows K_current_month (curLenOf rows))
            (cumOf rows K_last_year (curLenOf rows))
            (cumOf rows K_record_month (recLenOf rows))
            (curLenOf rows) (recLenOf rows) (progressOf rows)"
  have pts: "\<exists>i. p = ?row i"
    if "p \<in> set (data (transformApiToNormalizedChart (Some rows)))" for p
    using that unfolding transform_data [OF False] by auto
  have nonneg: "0 \<le> row_lastYear (?row i) \<and> 0 \<le> row_record (?row i)
               \<and> (\<forall>a. row_current (?row i) = Some a \<longrightarrow> 0 \<le> a)" for i
    using cumOf_nonneg [OF assms(1), of K_last_year "curLenOf rows"]
      cumOf_nonneg [OF assms(1), of K_record_month "recLenOf rows"]
      cumOf_nonneg [OF assms(1), of K_current_month "curLenOf rows"] lens_pos [of rows]
    by (auto simp: chartRowAt_sel)
  have fin: "row_lastYear (?row i) < dbl_overflow \<and> row_record (?row i) < dbl_overflow
               \<and> (\<forall>a. row_current (?row i) = Some a \<longrightarrow> a < dbl_overflow)" for i
    using cumOf_finite [OF assms, of K_last_year "curLenOf rows"]
      cumOf_finite [OF assms, of K_record_month "recLenOf rows"]
      cumOf_finite [OF assms, of K_current_month "curLenOf rows"] lens_pos [of rows]
      lens_le [of rows]
    by (auto simp: chartRowAt_sel)
  have mono: "row_lastYear (?row i) \<le> row_lastYear (?row j)
               \<and> row_record (?row i) \<le> row_record (?row j)
               \<and> (\<forall>a b. row_current (?row i) = Some a \<and> row_current (?row j) = Some b \<longrightarrow> a \<le> b)"
    if "i \<le> j" for i j
  proof -
    have pq: "real_of_int i / 100 \<le> real_of_int j / 100" using that by simp
    show ?thesis
      using cumOf_mono [OF assms(1) _ _ pq, of K_last_year "curLenOf rows"]
        cumOf_mono [OF assms(1) _ _ pq, of K_record_month "recLenOf rows"]
        cumOf_mono [OF assms(1) _ _ pq, of K_current_month "curLenOf rows"] lens_pos [of rows]
      by (auto simp: chartRowAt_sel split: if_splits)
  qed
  show ?thesis
    unfolding Let_def
  proof (intro conjI; intro ballI impI)
    fix p assume "p \<in> set (data (transformApiToNormalizedChart (Some rows)))"
    then obtain i where "p = ?row i" using pts by blast
    then show "0 \<le> row_lastYear p \<and> 0 \<le> row_record p
               \<and> (\<forall>a. row_current p = Some a \<longrightarrow> 0 \<le> a)"
      using nonneg [of i] by simp
  next
    fix p q
    assume "p \<in> set (data (transformApiToNormalizedChart (Some rows)))"
      and "q \<in> set (data (transformApiToNormalizedChart (Some rows)))"
      and le: "row_x p \<le> row_x q"
    then obtain i j where ij: "p = ?row i" "q = ?row j" using pts by blast
    with le have "i \<le> j" by (simp add: chartRowAt_sel)
    from mono [OF this] ij
    show "row_lastYear p \<le> row_lastYear q \<and> row_record p \<le> row_record q
                   \<and> (\<forall>a b. row_current p = Some a \<and> row_current q = Some b \<longrightarrow> a \<le> b)"
      by simp
  next
    fix p assume "p \<in> set (data (transformApiToNormalizedChart (Some rows)))"
    then obtain i where "p = ?row i" using pts by blast
    then show "row_lastYear p < dbl_overflow \<and> row_record p < dbl_overflow
                 \<and> (\<forall>a. row_current p = Some a \<longrightarrow> a < dbl_overflow)"
      using fin [of i] by simp
  qed
qed

theorem series_monotone_witness:
  "nonnegAmounts rows_half \<and> cappedAmounts rows_half
   \<and> row_x (data (transformApiToNormalizedChart (Some rows_half)) ! 10)
       \<le> row_x (data (transformApiToNormalizedChart (Some rows_half)) ! 40)
   \<and> 0 \<le> row_lastYear (data (transformApiToNormalizedChart (Some rows_half)) ! 10)
   \<and> row_lastYear (data (transformApiToNormalizedChart (Some rows_half)) ! 10)
       \<le> row_lastYear (data (transformApiToNormalizedChart (Some rows_half)) ! 40)
   \<and> row_lastYear (data (transformApiToNormalizedChart (Some rows_half)) ! 40) < dbl_overflow
   \<and> 0 \<le> row_record (data (transformApiToNormalizedChart (Some rows_half)) ! 10)
   \<and> row_record (data (transformApiToNormalizedChart (Some rows_half)) ! 10)
       \<le> row_record (data (transformApiToNormalizedChart (Some rows_half)) ! 40)
   \<and> row_record (data (transformApiToNormalizedChart (Some rows_half)) ! 40) < dbl_overflow
   \<and> (\<exists>a b. row_current (data (transformApiToNormalizedChart (Some rows_half)) ! 10) = Some a
          \<and> row_current (data (transformApiToNormalizedChart (Some rows_half)) ! 40) = Some b
          \<and> 0 \<le> a \<and> a \<le> b \<and> b < dbl_overflow)"
proof -
  let ?d = "data (transformApiToNormalizedChart (Some rows_half))"
  have ne: "rows_half \<noteq> []" by (simp add: rows_half_def)
  note t = series_monotone [OF rows_half_nonneg rows_half_capped, unfolded Let_def]
  have mem: "?d ! k \<in> set ?d" if "k \<le> 100" for k
    using that data_length [OF ne] by simp
  have x: "row_x (?d ! k) = int k" if "k \<le> 100" for k
    using that by (simp add: data_nth [OF ne] chartRowAt_sel)
  have c: "\<exists>a. row_current (?d ! k) = Some a" if "k \<le> 50" for k
    using that by (simp add: data_nth [OF ne] chartRowAt_sel rows_half_meta)
  from c [of 10] c [of 40] obtain a b where ab:
    "row_current (?d ! 10) = Some a" "row_current (?d ! 40) = Some b" by auto
  have le: "row_x (?d ! 10) \<le> row_x (?d ! 40)" by (simp add: x)
  from t mem [of 10] have 1: "0 \<le> row_lastYear (?d ! 10) \<and> 0 \<le> row_record (?d ! 10)
      \<and> (\<forall>a. row_current (?d ! 10) = Some a \<longrightarrow> 0 \<le> a)" by simp
  from t mem [of 10] mem [of 40] le
  have 2: "row_lastYear (?d ! 10) \<le> row_lastYear (?d ! 40)
      \<and> row_record (?d ! 10) \<le> row_record (?d ! 40)
      \<and> (\<forall>a b. row_current (?d ! 10) = Some a \<and> row_current (?d ! 40) = Some b \<longrightarrow> a \<le> b)"
    by simp
  from t mem [of 40] have 3: "row_lastYear (?d ! 40) < dbl_overflow
      \<and> row_record (?d ! 40) < dbl_overflow
      \<and> (\<forall>a. row_current (?d ! 40) = Some a \<longrightarrow> a < dbl_overflow)" by simp
  from 1 2 3 ab have "0 \<le> a" "a \<le> b" "b < dbl_overflow" by blast+
  with ab 1 2 3 le rows_half_nonneg rows_half_capped show ?thesis by blast
qed

text \<open>
  The claim C1 as stated, for every row list, fails: \<open>toNumber\<close> keeps the sign of an
  amount and nothing later rejects a negative one. With 10 on day 1 and -30 on day 2 the
  last-year and record values fall from 0 at the point 0 to -20 at the point 100, and the
  current value falls from 8.4 at the point 3 to -18.8 at the point 7.
\<close>

theorem series_monotone_counterexample:
  "row_x (data (transformApiToNormalizedChart (Some rows_refund)) ! 0) = 0
   \<and> row_x (data (transformApiToNormalizedChart (Some rows_refund)) ! 3) = 3
   \<and> row_x (data (transformApiToNormalizedChart (Some rows_refund)) ! 7) = 7
   \<and> row_x (data (transformApiToNormalizedChart (Some rows_refund)) ! 100) = 100
   \<and> row_lastYear (data (transformApiToNormalizedChart (Some rows_refund)) ! 0) = 0
   \<and> row_lastYear (data (transformApiToNormalizedChart (Some rows_refund)) ! 100) = - 20
   \<and> row_record (data (transformApiToNormalizedChart (Some rows_refund)) ! 0) = 0
   \<and> row_record (data (transformApiToNormalizedChart (Some rows_refund)) ! 100) = - 20
   \<and> row_current (data (transformApiToNormalizedChart (Some rows_refund)) ! 3) = Some (42 / 5)
   \<and> row_current (data (transformApiToNormalizedChart (Some rows_refund)) ! 7) = Some (- 94 / 5)"
proof -
  have ne: "rows_refund \<noteq> []" by (simp add: rows_refund_def)
  show ?thesis
    by (simp add: data_nth [OF ne] chartRowAt_sel rows_refund_meta rows_refund_cum
        cumAtProgress_def at_or_def)
qed

section \<open>The claims about the summary labels\<close>

text \<open>
  C9 (compact millions), as amended: let v \<ge> 0, and let y be v / 100000 when
  v / 1000000 is below 10 and v / 1000000 otherwise. If y is clear of the whole numbers
  (\<open>clearOf\<close>: a whole number below \<open>2\<^sup>5\<^sup>3\<close>, or of magnitude \<open>2\<^sup>-\<^sup>1\<^sup>0\<^sup>0\<^sup>0\<close> or more and farther
  than \<open>y / 2\<^sup>5\<^sup>1\<close> from every whole number), the label is the exact ceiling: below 10 the
  least number of tenths that is not below v / 1000000 (a ceiling, not the nearest),
  written without the fraction when that is a whole number and with one decimal
  otherwise; from 10 on the ceiling of v / 1000000 as a whole number. In each case the
  letter M follows. Every whole v below \<open>10\<^sup>1\<^sup>5\<close> is clear on both scales. 2500000 gives
  2.5M, 2000000 gives 2M, 9999999 gives 10M and 0 gives 0M.
\<close>

theorem formatBubble_rounds_up:
  "(\<forall>v. 0 \<le> v \<and> v / 1000000 < 10 \<and> clearOf (v / 100000) \<longrightarrow>
      (let k = nat \<lceil>v / 1000000 * 10\<rceil>
       in v / 1000000 \<le> real k / 10 \<and> real k / 10 < v / 1000000 + 1 / 10
          \<and> formatBubble E v =
              (if k mod 10 = 0 then showNat (k div 10)
               else showNat (k div 10) @ ''.'' @ showNat (k mod 10)) @ ''M''))
   \<and> (\<forall>v. 10 \<le> v / 1000000 \<and> clearOf (v / 1000000) \<longrightarrow>
      (let n = \<lceil>v / 1000000\<rceil>
       in v / 1000000 \<le> real_of_int n \<and> real_of_int n < v / 1000000 + 1
          \<and> formatBubble E v = showNat (nat n) @ ''M''))
   \<and> (\<forall>n. 0 \<le> n \<and> n < 10 ^ 15 \<longrightarrow>
        clearOf (real_of_int n / 100000) \<and> clearOf (real_of_int n / 1000000))
   \<and> formatBubble E 2500000 = ''2.5M'' \<and> formatBubble E 2000000 = ''2M''
   \<and> formatBubble E 9999999 = ''10M'' \<and> formatBubble E 0 = ''0M''"
proof (intro conjI allI impI)
  fix v :: real
  assume a: "0 \<le> v \<and> v / 1000000 < 10 \<and> clearOf (v / 100000)"
  define c where "c = \<lceil>v / 1000000 * 10\<rceil>"
  have c0: "0 \<le> c" unfolding c_def using a by (simp add: le_ceiling_iff)
  have r: "real (nat c) = real_of_int c" using c0 by simp
  have b: "v / 1000000 * 10 \<le> real_of_int c" "real_of_int c < v / 1000000 * 10 + 1"
    unfolding c_def by linarith+
  have "v / 1000000 \<le> real (nat c) / 10 \<and> real (nat c) / 10 < v / 1000000 + 1 / 10"
    unfolding r using b by linarith
  moreover have "formatBubble E v =
              (if nat c mod 10 = 0 then showNat (nat c div 10)
               else showNat (nat c div 10) @ ''.'' @ showNat (nat c mod 10)) @ ''M''"
    unfolding c_def using a by (intro formatBubble_clear_small) simp_all
  ultimately show "let k = nat \<lceil>v / 1000000 * 10\<rceil>
       in v / 1000000 \<le> real k / 10 \<and> real k / 10 < v / 1000000 + 1 / 10
          \<and> formatBubble E v =
              (if k mod 10 = 0 then showNat (k div 10)
               else showNat (k div 10) @ ''.'' @ showNat (k mod 10)) @ ''M''"
    unfolding Let_def c_def by blast
next
  fix v :: real
  assume a: "10 \<le> v / 1000000 \<and> clearOf (v / 1000000)"
  define n where "n = \<lceil>v / 1000000\<rceil>"
  have b: "v / 1000000 \<le> real_of_int n" "real_of_int n < v / 1000000 + 1"
    unfolding n_def by linarith+
  have f: "formatBubble E v = showNat (nat n) @ ''M''"
    unfolding n_def using a by (intro formatBubble_clear_large) simp_all
  with b show "let n = \<lceil>v / 1000000\<rceil>
       in v / 1000000 \<le> real_of_int n \<and> real_of_int n < v / 1000000 + 1
          \<and> formatBubble E v = showNat (nat n) @ ''M''"
    unfolding Let_def n_def by blast
next
  fix n :: int
  assume a: "0 \<le> n \<and> n < 10 ^ 15"
  then show "clearOf (real_of_int n / 100000)" by (intro whole_clear(1)) simp_all
  from a show "clearOf (real_of_int n / 1000000)" by (intro whole_clear(2)) simp_all
next
  have "clearOf (real_of_int 2500000 / 100000)" by (rule whole_clear(1)) simp_all
  then have "clearOf (2500000 / 100000)" by simp
  then show "formatBubble E 2500000 = ''2.5M''"
    by (subst formatBubble_clear_small) (simp_all add: digit_eval)
  have "clearOf (real_of_int 2000000 / 100000)" by (rule whole_clear(1)) simp_all
  then have "clearOf (2000000 / 100000)" by simp
  then show "formatBubble E 2000000 = ''2M''"
    by (subst formatBubble_clear_small) (simp_all add: digit_eval)
  have "clearOf (real_of_int 9999999 / 100000)" by (rule whole_clear(1)) simp_all
  then have "clearOf (9999999 / 100000)" by simp
  then show "formatBubble E 9999999 = ''10M''"
    by (subst formatBubble_clear_small) (simp_all add: digit_eval)
  have "clearOf (real_of_int 0 / 100000)" by (rule whole_clear(1)) simp_all
  then have "clearOf (0 / 100000)" by simp
  then show "formatBubble E 0 = ''0M''"
    by (subst formatBubble_clear_small) (simp_all add: digit_eval)
qed

theorem formatBubble_rounds_up_witness:
  "clearOf (24000005 / 10 / 100000) \<and> formatBubble (\<lambda>x. []) (24000005 / 10) = ''2.5M''
   \<and> clearOf (12345678 / 1000000) \<and> formatBubble (\<lambda>x. []) 12345678 = ''13M''
   \<and> clearOf (real_of_int 3000000 / 100000)"
proof -
  note t = formatBubble_rounds_up [of "\<lambda>x. []"]
  from t have s: "\<forall>v. 0 \<le> v \<and> v / 1000000 < 10 \<and> clearOf (v / 100000) \<longrightarrow>
      (let k = nat \<lceil>v / 1000000 * 10\<rceil>
       in v / 1000000 \<le> real k / 10 \<and> real k / 10 < v / 1000000 + 1 / 10
          \<and> formatBubble (\<lambda>x. []) v =
              (if k mod 10 = 0 then showNat (k div 10)
               else showNat (k div 10) @ ''.'' @ showNat (k mod 10)) @ ''M'')"
    by (rule conjunct1)
  from t have l: "\<forall>v. 10 \<le> v / 1000000 \<and> clearOf (v / 1000000) \<longrightarrow>
      (let n = \<lceil>v / 1000000\<rceil>
       in v / 1000000 \<le> real_of_int n \<and> real_of_int n < v / 1000000 + 1
          \<and> formatBubble (\<lambda>x. []) v = showNat (nat n) @ ''M'')"
    by (rule conjunct1 [OF conjunct2])
  from t have w: "\<forall>n. 0 \<le> n \<and> n < 10 ^ 15 \<longrightarrow>
        clearOf (real_of_int n / 100000) \<and> clearOf (real_of_int n / 1000000)"
    by (rule conjunct1 [OF conjunct2 [OF conjunct2]])
  have c1: "clearOf (24000005 / 10 / 100000)"
    by (simp add: clearOf_def offWhole_def round_def)
  have c2: "clearOf (12345678 / 1000000)"
    by (simp add: clearOf_def offWhole_def round_def)
  have f1: "\<lceil>24000005 / 10 / 1000000 * 10 :: real\<rceil> = 25" by simp
  have 1: "formatBubble (\<lambda>x. []) (24000005 / 10) = ''2.5M''"
    using s [rule_format, of "24000005 / 10"] c1 unfolding Let_def f1
    by (simp add: digit_eval)
  have f2: "\<lceil>12345678 / 1000000 :: real\<rceil> = 13" by simp
  have 2: "formatBubble (\<lambda>x. []) 12345678 = ''13M''"
    using l [rule_format, of 12345678] c2 unfolding Let_def f2
    by (simp add: digit_eval)
  have 3: "clearOf (real_of_int 3000000 / 100000)"
    using w [rule_format, of 3000000] by simp
  show ?thesis using c1 1 c2 2 3 by simp
qed

text \<open>
  The claim C9 as stated, for every non-negative number, fails: the quotient and the
  product are rounded to doubles before the ceiling is taken. \<open>6600000 + 2\<^sup>-\<^sup>3\<^sup>0\<close> is a
  double, and it has more than 66 tenths of a million, so that rounding up gives 6.7M;
  the rounded product is exactly 66 and \<open>formatBubble\<close> writes 6.6M.
\<close>

theorem formatBubble_rounding_counterexample:
  "fl (6600000 + 1 / 2 ^ 30) = 6600000 + 1 / 2 ^ 30
   \<and> (0::real) \<le> 6600000 + 1 / 2 ^ 30
   \<and> (6600000 + 1 / 2 ^ 30 :: real) / 1000000 < 10
   \<and> nat \<lceil>(6600000 + 1 / 2 ^ 30 :: real) / 1000000 * 10\<rceil> = 67
   \<and> formatBubble (\<lambda>x. []) (6600000 + 1 / 2 ^ 30) = ''6.6M''"
proof -
  have d: "fl (6600000 + 1 / 2 ^ 30) = 6600000 + 1 / 2 ^ 30"
    by (simp add: fl_fast)
  have m: "fl ((6600000 + 1 / 2 ^ 30) / 1000000) = 7430939385161319 / 2 ^ 50"
    by (simp add: fl_fast)
  have t: "fl (7430939385161319 / 2 ^ 50 * 10) = 66"
    by (simp add: fl_fast)
  have lt: "fl ((6600000 + 1 / 2 ^ 30) / 1000000) < 10" unfolding m by simp
  have ce: "\<lceil>fl (fl ((6600000 + 1 / 2 ^ 30) / 1000000) * 10)\<rceil> = int 66"
    unfolding m t by simp
  have "formatBubble (\<lambda>x. []) (6600000 + 1 / 2 ^ 30) = ''6.6M''"
    using formatBubble_small [OF lt ce, of "\<lambda>x. []"] by (simp add: digit_eval)
  moreover have "nat \<lceil>(6600000 + 1 / 2 ^ 30 :: real) / 1000000 * 10\<rceil> = 67" by simp
  ultimately show ?thesis using d by simp
qed

end
